theory Spec2Isabelle
  imports Main "HOL-Library.Word"
begin

unbundle bit_operations_syntax

section \<open>Machine types and errors\<close>

text \<open>
  The sources are C extension modules for CPython.  \<open>unsigned char\<close> is an 8-bit word,
  \<open>int\<close> and \<open>unsigned int\<close> are 32-bit words, \<open>long\<close> and \<open>unsigned long\<close> are 64-bit
  words (LP64); Python integers are unbounded (\<open>int\<close>).

  A Python exception raised by the C code is an \<open>error\<close> value: \<open>PyExc_IndexError\<close> and
  \<open>PyExc_ValueError\<close> are the two exceptions these functions set.  \<open>Fault\<close> stands for
  undefined behaviour of the C code (a read outside the buffer, a division by zero):
  no Python exception is raised there.  Failure of \<open>PyMem_Malloc\<close> and of the
  constructors of Python objects is not modelled: memory is assumed to be available.
\<close>

type_synonym byte = "8 word"
type_synonym uint = "32 word"
type_synonym ulong = "64 word"

datatype error = IndexError | ValueError | Fault

text \<open>\<open>*p\<close> for a pointer \<open>p = buf + i\<close> into a buffer of known length.\<close>

definition peek :: "byte list \<Rightarrow> nat \<Rightarrow> byte option" where
  "peek mem i = (if i < length mem then Some (mem ! i) else None)"

text \<open>The table \<open>highMasks\<close> (the same in every module); indices are 0 to 7.\<close>

definition highMasks :: "nat \<Rightarrow> byte" where
  "highMasks k = [0xFF, 0xFE, 0xFC, 0xF8, 0xF0, 0xE0, 0xC0, 0x80] ! k"

text \<open>
  C promotes \<open>unsigned char\<close> operands to \<open>int\<close> before shifting; the result is
  converted back to \<open>unsigned char\<close> on assignment or by the cast.
\<close>

definition shl_byte :: "byte \<Rightarrow> nat \<Rightarrow> byte" where
  "shl_byte a p = ucast (push_bit p (ucast a :: uint))"

definition shr_byte :: "byte \<Rightarrow> nat \<Rightarrow> byte" where
  "shr_byte b p = ucast (drop_bit p (ucast b :: uint))"

section \<open>walkerbit.c: cursors over a buffer, positions in bits\<close>

record WKB_Context =
  liveBuffer :: "byte list"
  origBitStart :: ulong
  currBitOffset :: ulong
  bitLimit :: ulong
  wkb_isBigEndian :: bool

text \<open>
  \<open>BytesFromBits\<close> of walkerbit.c, byte boundary branch: the loop
  \<open>while (bitCount >= 8UL)\<close> followed by \<open>if (bitCount)\<close>.  The result is the list
  of bytes written to \<open>buffer\<close>, in order.
\<close>

function wkb_aligned :: "byte list \<Rightarrow> nat \<Rightarrow> nat \<Rightarrow> byte list option" where
  "wkb_aligned mem from bitCount =
     (if 8 \<le> bitCount then
        (case peek mem from of
           None \<Rightarrow> None
         | Some a \<Rightarrow> map_option ((#) a) (wkb_aligned mem (from + 1) (bitCount - 8)))
      else if bitCount \<noteq> 0 then
        (case peek mem from of
           None \<Rightarrow> None
         | Some a \<Rightarrow> Some [a AND highMasks (8 - bitCount)])
      else Some [])"
  by pat_completeness auto
termination
  by (relation "measure (\<lambda>(mem, from, bitCount). bitCount)") auto

text \<open>The branch for a nonzero starting phase; \<open>fromNext\<close> is always \<open>from + 1\<close>.\<close>

function wkb_shifted :: "byte list \<Rightarrow> nat \<Rightarrow> nat \<Rightarrow> nat \<Rightarrow> byte list option" where
  "wkb_shifted mem currPhase from bitCount =
     (let counterPhase = 8 - currPhase in
      if 8 \<le> bitCount then
        (case (peek mem from, peek mem (from + 1)) of
           (Some a, Some b) \<Rightarrow>
              map_option ((#) (shl_byte a currPhase OR shr_byte b counterPhase))
                (wkb_shifted mem currPhase (from + 1) (bitCount - 8))
         | _ \<Rightarrow> None)
      else if bitCount \<noteq> 0 then
        (if bitCount \<le> counterPhase then
           (case peek mem from of
              None \<Rightarrow> None
            | Some a \<Rightarrow> Some [shl_byte a currPhase AND highMasks (8 - bitCount)])
         else
           (case (peek mem from, peek mem (from + 1)) of
              (Some a, Some b) \<Rightarrow>
                 Some [shl_byte a currPhase OR
                       shr_byte (b AND highMasks (8 - (bitCount - counterPhase))) counterPhase]
            | _ \<Rightarrow> None))
      else Some [])"
  by pat_completeness auto
termination
  by (relation "measure (\<lambda>(mem, currPhase, from, bitCount). bitCount)") auto

definition wkb_BytesFromBits ::
  "WKB_Context \<Rightarrow> ulong \<Rightarrow> (error + byte list) \<times> WKB_Context" where
  "wkb_BytesFromBits c bitCount =
     (if \<not> currBitOffset c + bitCount \<le> bitLimit c then (Inl IndexError, c)
      else
        let from = unat (drop_bit 3 (currBitOffset c));
            currPhase = unat (currBitOffset c AND 7);
            c' = c\<lparr>currBitOffset := currBitOffset c + bitCount\<rparr>
        in case (if currPhase = 0 then wkb_aligned (liveBuffer c) from (unat bitCount)
                 else wkb_shifted (liveBuffer c) currPhase from (unat bitCount)) of
             None \<Rightarrow> (Inl Fault, c')
           | Some out \<Rightarrow> (Inr out, c'))"

text \<open>
  \<open>wkb_UnpackBits\<close>: the bytes object holds the first \<open>byteCount\<close> bytes of the buffer
  that \<open>BytesFromBits\<close> filled.
\<close>

definition wkb_UnpackBits ::
  "WKB_Context \<Rightarrow> ulong \<Rightarrow> (error + byte list) \<times> WKB_Context" where
  "wkb_UnpackBits c bitCount =
     (if bitCount \<noteq> 0 then
        (let byteCount = unat (drop_bit 3 (bitCount + 7)) in
         case wkb_BytesFromBits c bitCount of
           (Inl e, c') \<Rightarrow> (Inl e, c')
         | (Inr b, c') \<Rightarrow> (Inr (take byteCount b), c'))
      else (Inr [], c))"

section \<open>walker.c: cursors over a buffer, positions in bytes with a phase\<close>

text \<open>
  The field \<open>char phase\<close> carries the comment "always 0 through 7"; it is read
  through \<open>unat\<close>.
\<close>

record WK_Context =
  wk_liveBuffer :: "byte list"
  origStart :: ulong
  currOffset :: ulong
  limit :: ulong
  wk_isBigEndian :: bool
  phase :: byte

text \<open>The loop \<open>while (byteCount--)\<close> of the branch for a nonzero phase.\<close>

fun wk_shift_loop :: "byte list \<Rightarrow> nat \<Rightarrow> nat \<Rightarrow> nat \<Rightarrow> byte list option" where
  "wk_shift_loop mem ph from 0 = Some []"
| "wk_shift_loop mem ph from (Suc byteCount) =
     (case (peek mem from, peek mem (from + 1)) of
        (Some a, Some b) \<Rightarrow>
           map_option ((#) (shl_byte a ph OR shr_byte b (8 - ph)))
             (wk_shift_loop mem ph (from + 1) byteCount)
      | _ \<Rightarrow> None)"

text \<open>The loop \<open>while (byteCount--) *to++ = *from++\<close> of the branch for phase 0.\<close>

fun wk_copy_loop :: "byte list \<Rightarrow> nat \<Rightarrow> nat \<Rightarrow> byte list option" where
  "wk_copy_loop mem from 0 = Some []"
| "wk_copy_loop mem from (Suc byteCount) =
     (case peek mem from of
        None \<Rightarrow> None
      | Some a \<Rightarrow> map_option ((#) a) (wk_copy_loop mem (from + 1) byteCount))"

text \<open>
  What follows the loop when the phase is nonzero: the bytes written for the last
  1 to 7 bits, the new phase and the new \<open>savedByteCount\<close>.
\<close>

definition wk_shift_tail ::
  "byte list \<Rightarrow> nat \<Rightarrow> nat \<Rightarrow> nat \<Rightarrow> nat \<Rightarrow> (byte list \<times> nat \<times> nat) option" where
  "wk_shift_tail mem ph from bitCount savedByteCount =
     (if bitCount \<noteq> 0 then
        (if bitCount + ph \<le> 8 then
           (case peek mem from of
              None \<Rightarrow> None
            | Some a \<Rightarrow>
                Some ([shl_byte a ph AND highMasks (8 - bitCount)],
                      (if ph + bitCount = 8 then (0, savedByteCount + 1)
                       else (ph + bitCount, savedByteCount))))
         else
           (case (peek mem from, peek mem (from + 1)) of
              (Some a, Some b) \<Rightarrow>
                 Some ([shl_byte a ph OR
                        shr_byte (b AND highMasks (16 - (bitCount + ph))) (8 - ph)],
                       (bitCount + ph) - 8, savedByteCount + 1)
            | _ \<Rightarrow> None))
      else Some ([], ph, savedByteCount))"

definition wk_BytesFromBits ::
  "WK_Context \<Rightarrow> ulong \<Rightarrow> (error + byte list) \<times> WK_Context" where
  "wk_BytesFromBits c bitCount =
     (let ph = unat (phase c);
          from = unat (currOffset c);
          byteCount = unat (drop_bit 3 bitCount);
          availableBits =
            (if currOffset c < limit c then 8 * (limit c - currOffset c) - ucast (phase c)
             else 0)
      in if \<not> bitCount \<le> availableBits then (Inl IndexError, c)
         else
           let bitCount' = unat (bitCount AND 7) in
           if ph \<noteq> 0 then
             (case wk_shift_loop (wk_liveBuffer c) ph from byteCount of
                None \<Rightarrow> (Inl Fault, c)
              | Some out \<Rightarrow>
                  (case wk_shift_tail (wk_liveBuffer c) ph (from + byteCount) bitCount' byteCount of
                     None \<Rightarrow> (Inl Fault, c)
                   | Some (tl_bytes, ph', savedByteCount) \<Rightarrow>
                       (Inr (out @ tl_bytes),
                        c\<lparr>phase := of_nat ph',
                          currOffset := currOffset c + of_nat savedByteCount\<rparr>)))
           else
             (case wk_copy_loop (wk_liveBuffer c) from byteCount of
                None \<Rightarrow> (Inl Fault, c)
              | Some out \<Rightarrow>
                  if bitCount' \<noteq> 0 then
                    (case peek (wk_liveBuffer c) (from + byteCount) of
                       None \<Rightarrow> (Inl Fault, c)
                     | Some a \<Rightarrow>
                         (Inr (out @ [a AND highMasks (8 - bitCount')]),
                          c\<lparr>phase := of_nat bitCount',
                            currOffset := currOffset c + of_nat byteCount\<rparr>))
                  else (Inr out, c\<lparr>currOffset := currOffset c + of_nat byteCount\<rparr>)))"

definition wk_UnpackBits ::
  "WK_Context \<Rightarrow> ulong \<Rightarrow> (error + byte list) \<times> WK_Context" where
  "wk_UnpackBits c bitCount =
     (if bitCount \<noteq> 0 then
        (let byteCount = unat (drop_bit 3 (bitCount + 7)) in
         case wk_BytesFromBits c bitCount of
           (Inl e, c') \<Rightarrow> (Inl e, c')
         | (Inr b, c') \<Rightarrow> (Inr (take byteCount b), c'))
      else (Inr [], c))"

section \<open>Seek and skip\<close>

text \<open>
  \<open>wkb_SetOffset\<close> (walkerbit.c).  \<open>signedBitOffset\<close> is a \<open>long\<close>; the sum with the
  base is taken in 64 bits, \<open>bitOffset\<close> is the same word read as \<open>unsigned long\<close>, and
  \<open>signedBitOffset >= 0\<close> reads it as signed.
\<close>

definition wkb_SetOffset ::
  "WKB_Context \<Rightarrow> ulong \<Rightarrow> bool \<Rightarrow> bool \<Rightarrow> (error + unit) \<times> WKB_Context" where
  "wkb_SetOffset c signedBitOffset relative okToExceed =
     (let signedBitOffset' =
            signedBitOffset + (if relative then currBitOffset c else origBitStart c);
          bitOffset = signedBitOffset'
      in if okToExceed \<or> (bitOffset < bitLimit c \<and> 0 \<le> sint signedBitOffset')
         then (Inr (), c\<lparr>currBitOffset := bitOffset\<rparr>)
         else (Inl IndexError, c))"


text \<open>
  \<open>wk_SetOffset\<close> (walker.c): the phase is cleared before the offset is resolved and
  checked.
\<close>

definition wk_SetOffset ::
  "WK_Context \<Rightarrow> ulong \<Rightarrow> bool \<Rightarrow> bool \<Rightarrow> (error + unit) \<times> WK_Context" where
  "wk_SetOffset c offset relative okToExceed =
     (let c1 = c\<lparr>phase := 0\<rparr>;
          offset' = offset + (if relative then currOffset c1 else origStart c1)
      in if okToExceed \<or> (offset' < limit c1 \<and> 0 \<le> sint offset')
         then (Inr (), c1\<lparr>currOffset := offset'\<rparr>)
         else (Inl IndexError, c1))"


section \<open>Format strings: sizes\<close>

text \<open>
  A format is a byte string with its length (\<open>s#\<close>); characters are compared by their
  codes.  \<open>sz\<close> is the variable \<open>size\<close> of the source, and \<open>repeat0\<close> is \<open>repeat\<close>
  before \<open>if (!repeat) repeat = 1\<close>.
\<close>

definition is_digit :: "char \<Rightarrow> bool" where
  "is_digit c = (48 \<le> (of_char c :: nat) \<and> (of_char c :: nat) \<le> 57)"

definition digit_value :: "char \<Rightarrow> ulong" where
  "digit_value c = of_nat (of_char c - 48)"

text \<open>
  \<open>FormatByteSize\<close> (walkerbit.c and, with the same text, walker.c).
  \<open>sizeof(Py_ssize_t)\<close> is 8.  \<open>FormatByteSize_step\<close> is the body of the loop
  \<open>while (formatLength--)\<close> for the character \<open>c\<close>, on the variables
  (\<open>repeat\<close>, \<open>size\<close>, \<open>*itemCount\<close>).
\<close>

definition FormatByteSize_step :: "char \<Rightarrow> ulong \<times> ulong \<times> ulong \<Rightarrow> ulong \<times> ulong \<times> ulong" where
  "FormatByteSize_step c st =
     (case st of (repeat0, sz, itemCount) \<Rightarrow>
        if is_digit c then (10 * repeat0 + digit_value c, sz, itemCount)
        else
          let repeat = (if repeat0 = 0 then 1 else repeat0) in
          if c \<in> set ''Bbcpsx'' then
            (0, sz + repeat,
             if c = CHR ''s'' \<or> c = CHR ''p'' then itemCount + 1
             else if c \<noteq> CHR ''x'' then itemCount + repeat
             else itemCount)
          else if c \<in> set ''Hh'' then (0, sz + 2 * repeat, itemCount + repeat)
          else if c \<in> set ''Tt'' then (0, sz + 3 * repeat, itemCount + repeat)
          else if c \<in> set ''fIiLl'' then (0, sz + 4 * repeat, itemCount + repeat)
          else if c \<in> set ''dQq'' then (0, sz + 8 * repeat, itemCount + repeat)
          else if c = CHR ''P'' then (0, sz + 8 * repeat, itemCount + repeat)
          else (0, sz, itemCount))"

fun FormatByteSize_loop :: "string \<Rightarrow> ulong \<times> ulong \<times> ulong \<Rightarrow> ulong \<times> ulong \<times> ulong" where
  "FormatByteSize_loop [] st = st"
| "FormatByteSize_loop (c # format) st = FormatByteSize_loop format (FormatByteSize_step c st)"

text \<open>The pair is (returned size, \<open>*itemCount\<close>).\<close>

definition FormatByteSize :: "string \<Rightarrow> ulong \<times> ulong" where
  "FormatByteSize format = snd (FormatByteSize_loop format (0, 0, 0))"

text \<open>
  \<open>CalcSizeFromFormat\<close> (utilities.c) reads a C string: it stops at the first zero
  byte, or at the terminator that \<open>ut_Pack\<close> appends after the last character.
  A character outside its \<open>switch\<close> leaves \<open>repeat\<close> as it is.
\<close>

definition CalcSizeFromFormat_step :: "char \<Rightarrow> ulong \<times> ulong \<times> ulong \<Rightarrow> ulong \<times> ulong \<times> ulong" where
  "CalcSizeFromFormat_step c st =
     (case st of (repeat0, sz, itemCount) \<Rightarrow>
        let repeat = (if repeat0 = 0 then 1 else repeat0) in
        if is_digit c then (10 * repeat0 + digit_value c, sz, itemCount)
        else if c \<in> set ''Bbcpsx'' then
          (0, sz + repeat,
           if c = CHR ''p'' \<or> c = CHR ''s'' then itemCount + 1
           else if c \<noteq> CHR ''x'' then itemCount + repeat
           else itemCount)
        else if c \<in> set ''Hh'' then (0, sz + repeat * 2, itemCount + repeat)
        else if c \<in> set ''Tt'' then (0, sz + repeat * 3, itemCount + repeat)
        else if c \<in> set ''fIiLl'' then (0, sz + repeat * 4, itemCount + repeat)
        else if c \<in> set ''dQq'' then (0, sz + repeat * 8, itemCount + repeat)
        else (repeat0, sz, itemCount))"

fun CalcSizeFromFormat_loop :: "string \<Rightarrow> ulong \<times> ulong \<times> ulong \<Rightarrow> ulong \<times> ulong \<times> ulong" where
  "CalcSizeFromFormat_loop [] st = st"
| "CalcSizeFromFormat_loop (c # format) st =
     (if of_char c = (0 :: nat) then st
      else CalcSizeFromFormat_loop format (CalcSizeFromFormat_step c st))"

definition CalcSizeFromFormat :: "string \<Rightarrow> ulong \<times> ulong" where
  "CalcSizeFromFormat format = snd (CalcSizeFromFormat_loop format (0, 0, 0))"

section \<open>Format strings: decoding\<close>

text \<open>
  Python objects built by \<open>FormatProcess\<close>.  A float object is kept as the bit pattern
  it was made from; \<open>PyNull\<close> is a tuple slot that has not been set.
\<close>

datatype PyObject =
    PyNull
  | PyLong int
  | PyFloat32 uint
  | PyFloat64 ulong
  | PyBytes "byte list"
  | PyTuple "PyObject list"

text \<open>\<open>PyTuple_SetItem\<close> raises IndexError for an index outside the tuple.\<close>

definition PyTuple_SetItem :: "PyObject list \<Rightarrow> nat \<Rightarrow> PyObject \<Rightarrow> error + PyObject list" where
  "PyTuple_SetItem t index obj = (if index < length t then Inr (t[index := obj]) else Inl IndexError)"

text \<open>
  The value that this machine reads from the bytes \<open>xc\<close> of an integer object:
  \<open>runningOnBigEndian\<close> is the result of the probe \<open>*(char *) &robeTest == 0\<close>.
  \<open>arrange\<close> is \<open>xc\<close> after the two copy loops of a case.
\<close>

definition le_nat :: "byte list \<Rightarrow> nat" where
  "le_nat xc = foldr (\<lambda>b v. unat b + 256 * v) xc 0"

definition native :: "bool \<Rightarrow> byte list \<Rightarrow> nat" where
  "native runningOnBigEndian xc = (if runningOnBigEndian then le_nat (rev xc) else le_nat xc)"

definition arrange :: "bool \<Rightarrow> bool \<Rightarrow> byte list \<Rightarrow> byte list" where
  "arrange runningOnBigEndian isBigEndian bs =
     (if runningOnBigEndian = isBigEndian then bs else rev bs)"

text \<open>The decoders of the cases; \<open>bs\<close> holds the bytes that the case reads from \<open>b\<close>.\<close>

definition decode_B :: "char \<Rightarrow> byte list \<Rightarrow> PyObject" where
  "decode_B c bs = (if c = CHR ''B'' then PyLong (uint (bs ! 0)) else PyLong (sint (bs ! 0)))"

definition decode_H :: "bool \<Rightarrow> bool \<Rightarrow> char \<Rightarrow> byte list \<Rightarrow> PyObject" where
  "decode_H runningOnBigEndian isBigEndian c bs =
     (let x = (of_nat (native runningOnBigEndian (arrange runningOnBigEndian isBigEndian bs))
                 :: 16 word)
      in if c = CHR ''H'' then PyLong (uint x) else PyLong (sint x))"

definition decode_I :: "bool \<Rightarrow> bool \<Rightarrow> char \<Rightarrow> byte list \<Rightarrow> PyObject" where
  "decode_I runningOnBigEndian isBigEndian c bs =
     (let x = (of_nat (native runningOnBigEndian (arrange runningOnBigEndian isBigEndian bs))
                 :: uint)
      in if c = CHR ''f'' then PyFloat32 x
         else if c = CHR ''I'' \<or> c = CHR ''L'' then PyLong (uint x)
         else PyLong (sint x))"

definition sign_fill :: "char \<Rightarrow> byte \<Rightarrow> byte" where
  "sign_fill c msb = (if c = CHR ''T'' then 0 else if msb < 0x80 then 0 else 0xFF)"

definition decode_T :: "bool \<Rightarrow> bool \<Rightarrow> char \<Rightarrow> byte list \<Rightarrow> PyObject" where
  "decode_T runningOnBigEndian isBigEndian c bs =
     (let xc =
        (if runningOnBigEndian then
           (let xc123 = (if isBigEndian then bs else rev bs)
            in sign_fill c (xc123 ! 0) # xc123)
         else
           (let xc012 = (if isBigEndian then rev bs else bs)
            in xc012 @ [sign_fill c (xc012 ! 2)]))
      in PyLong (sint (of_nat (native runningOnBigEndian xc) :: uint)))"

definition decode_d :: "bool \<Rightarrow> bool \<Rightarrow> byte list \<Rightarrow> PyObject" where
  "decode_d runningOnBigEndian isBigEndian bs =
     PyFloat64 (of_nat (native runningOnBigEndian (arrange runningOnBigEndian isBigEndian bs)))"

text \<open>
  Cases \<open>'Q'\<close> and \<open>'q'\<close>: two \<open>unsigned int\<close> halves are assembled with shifts, then
  combined as Python integers (\<open>PyNumber_Lshift\<close> by 32, \<open>PyNumber_Add\<close>, and for
  \<open>'q'\<close> with \<open>highPart > 0x7FFFFFFF\<close> a \<open>PyNumber_Subtract\<close> of \<open>1 << 64\<close>).
\<close>

definition shl_uint :: "byte \<Rightarrow> nat \<Rightarrow> uint" where
  "shl_uint a k = push_bit k (ucast a)"

definition decode_Q :: "bool \<Rightarrow> char \<Rightarrow> byte list \<Rightarrow> PyObject" where
  "decode_Q isBigEndian c bs =
     (let highPart =
            (if isBigEndian
             then shl_uint (bs ! 0) 24 OR shl_uint (bs ! 1) 16 OR shl_uint (bs ! 2) 8 OR ucast (bs ! 3)
             else ucast (bs ! 4) OR shl_uint (bs ! 5) 8 OR shl_uint (bs ! 6) 16 OR shl_uint (bs ! 7) 24);
          lowPart =
            (if isBigEndian
             then shl_uint (bs ! 4) 24 OR shl_uint (bs ! 5) 16 OR shl_uint (bs ! 6) 8 OR ucast (bs ! 7)
             else ucast (bs ! 0) OR shl_uint (bs ! 1) 8 OR shl_uint (bs ! 2) 16 OR shl_uint (bs ! 3) 24);
          obj5 = push_bit 32 (uint highPart) + uint lowPart
      in if c = CHR ''q'' \<and> 0x7FFFFFFF < highPart then PyLong (obj5 - push_bit 64 1)
         else PyLong obj5)"

text \<open>
  A loop \<open>while (repeat--)\<close> that reads \<open>w\<close> bytes for each item, builds the object and
  stores it in the tuple at \<open>index++\<close>.  Reading past the end of \<open>b\<close> is a fault.
\<close>

fun fp_items ::
  "nat \<Rightarrow> nat \<Rightarrow> (byte list \<Rightarrow> PyObject) \<Rightarrow> PyObject list \<Rightarrow> byte list \<Rightarrow> nat \<Rightarrow>
   error + (PyObject list \<times> byte list \<times> nat)" where
  "fp_items 0 w dec t b index = Inr (t, b, index)"
| "fp_items (Suc repeat) w dec t b index =
     (if length b < w then Inl Fault
      else case PyTuple_SetItem t index (dec (take w b)) of
             Inl e \<Rightarrow> Inl e
           | Inr t' \<Rightarrow> fp_items repeat w dec t' (drop w b) (index + 1))"

text \<open>
  The \<open>switch\<close> of \<open>FormatProcess\<close> for one type code, with \<open>repeat\<close> already set to 1
  if it was 0.  The result is the tuple, the rest of \<open>b\<close>, \<open>index\<close> and \<open>isBigEndian\<close>.
  Case \<open>'p'\<close> takes the length from the first byte and does not compare it with
  \<open>repeat\<close>; \<open>b += repeat\<close> reads nothing.
\<close>

definition fp_code ::
  "bool \<Rightarrow> char \<Rightarrow> nat \<Rightarrow> PyObject list \<Rightarrow> byte list \<Rightarrow> nat \<Rightarrow> bool \<Rightarrow>
   error + (PyObject list \<times> byte list \<times> nat \<times> bool)" where
  "fp_code runningOnBigEndian c repeat t b index isBigEndian =
     (let items = (\<lambda>w dec.
            case fp_items repeat w dec t b index of
              Inl e \<Rightarrow> Inl e
            | Inr (t', b', index') \<Rightarrow> Inr (t', b', index', isBigEndian))
      in
      if c = CHR ''<'' then Inr (t, b, index, False)
      else if c = CHR ''@'' \<or> c = CHR ''='' then Inr (t, b, index, runningOnBigEndian)
      else if c = CHR ''!'' \<or> c = CHR ''>'' then Inr (t, b, index, True)
      else if c \<in> set ''Bb'' then items 1 (decode_B c)
      else if c \<in> set ''Hh'' then items 2 (decode_H runningOnBigEndian isBigEndian c)
      else if c \<in> set ''ILfil'' then items 4 (decode_I runningOnBigEndian isBigEndian c)
      else if c \<in> set ''Tt'' then items 3 (decode_T runningOnBigEndian isBigEndian c)
      else if c = CHR ''d'' then items 8 (decode_d runningOnBigEndian isBigEndian)
      else if c \<in> set ''Qq'' then items 8 (decode_Q isBigEndian c)
      else if c = CHR ''c'' then items 1 PyBytes
      else if c = CHR ''p'' then
        (case b of
           [] \<Rightarrow> Inl Fault
         | actualLength # data \<Rightarrow>
             if length data < unat actualLength then Inl Fault
             else case PyTuple_SetItem t index (PyBytes (take (unat actualLength) data)) of
                    Inl e \<Rightarrow> Inl e
                  | Inr t' \<Rightarrow> Inr (t', drop repeat b, index + 1, isBigEndian))
      else if c = CHR ''s'' then
        (if length b < repeat then Inl Fault
         else case PyTuple_SetItem t index (PyBytes (take repeat b)) of
                Inl e \<Rightarrow> Inl e
              | Inr t' \<Rightarrow> Inr (t', drop repeat b, index + 1, isBigEndian))
      else if c = CHR ''x'' then Inr (t, drop repeat b, index, isBigEndian)
      else Inr (t, b, index, isBigEndian))"

fun FormatProcess_loop ::
  "bool \<Rightarrow> string \<Rightarrow> ulong \<Rightarrow> PyObject list \<Rightarrow> byte list \<Rightarrow> nat \<Rightarrow> bool \<Rightarrow>
   error + PyObject list" where
  "FormatProcess_loop runningOnBigEndian [] repeat t b index isBigEndian = Inr t"
| "FormatProcess_loop runningOnBigEndian (c # format) repeat t b index isBigEndian =
     (if is_digit c then
        FormatProcess_loop runningOnBigEndian format (10 * repeat + digit_value c)
          t b index isBigEndian
      else
        let repeat = (if repeat = 0 then 1 else repeat) in
        case fp_code runningOnBigEndian c (unat repeat) t b index isBigEndian of
          Inl e \<Rightarrow> Inl e
        | Inr (t', b', index', isBigEndian') \<Rightarrow>
            FormatProcess_loop runningOnBigEndian format 0 t' b' index' isBigEndian')"

text \<open>
  \<open>FormatProcess(t, b, format, formatLength, startIndex, startIsBigEndian)\<close>; the
  result is the tuple \<open>t\<close> as the call leaves it.
\<close>

definition FormatProcess ::
  "bool \<Rightarrow> PyObject list \<Rightarrow> byte list \<Rightarrow> string \<Rightarrow> nat \<Rightarrow> bool \<Rightarrow> error + PyObject list" where
  "FormatProcess runningOnBigEndian t b format startIndex startIsBigEndian =
     FormatProcess_loop runningOnBigEndian format 0 t b startIndex startIsBigEndian"

section \<open>walkerbit.c: reading the rest of the data\<close>

text \<open>
  The two loops \<open>while (groupCount--)\<close> of \<open>wkb_UnpackRest\<close>: with \<open>direct\<close> (that is
  \<open>coerce && itemCount == 1\<close>) \<open>FormatProcess\<close> stores into \<open>retVal\<close> at \<open>walkIndex\<close>;
  otherwise it fills a new tuple \<open>t\<close> of \<open>itemCount\<close> slots, which is stored in
  \<open>retVal\<close>.  An error leaves the context as advanced so far.
\<close>

fun wkb_UnpackRest_loop ::
  "bool \<Rightarrow> string \<Rightarrow> bool \<Rightarrow> nat \<Rightarrow> ulong \<Rightarrow> nat \<Rightarrow> nat \<Rightarrow> PyObject list \<Rightarrow> WKB_Context \<Rightarrow>
   (error + PyObject list) \<times> WKB_Context" where
  "wkb_UnpackRest_loop robe format direct itemCount formatBitSize 0 walkIndex retVal c =
     (Inr retVal, c)"
| "wkb_UnpackRest_loop robe format direct itemCount formatBitSize (Suc groupCount) walkIndex retVal c =
     (case wkb_BytesFromBits c formatBitSize of
        (Inl e, c') \<Rightarrow> (Inl e, c')
      | (Inr b, c') \<Rightarrow>
          if direct then
            (case FormatProcess robe retVal b format walkIndex (wkb_isBigEndian c') of
               Inl e \<Rightarrow> (Inl e, c')
             | Inr retVal' \<Rightarrow>
                 wkb_UnpackRest_loop robe format direct itemCount formatBitSize groupCount
                   (walkIndex + 1) retVal' c')
          else
            (case FormatProcess robe (replicate itemCount PyNull) b format 0 (wkb_isBigEndian c') of
               Inl e \<Rightarrow> (Inl e, c')
             | Inr t \<Rightarrow>
                 (case PyTuple_SetItem retVal walkIndex (PyTuple t) of
                    Inl e \<Rightarrow> (Inl e, c')
                  | Inr retVal' \<Rightarrow>
                      wkb_UnpackRest_loop robe format direct itemCount formatBitSize groupCount
                        (walkIndex + 1) retVal' c')))"

text \<open>
  \<open>wkb_UnpackRest\<close>.  \<open>remainingBits % formatBitSize\<close> and
  \<open>remainingBits / formatBitSize\<close> with \<open>formatBitSize = 0\<close> are undefined behaviour.
  The result is the tuple \<open>retVal\<close>.
\<close>

definition wkb_UnpackRest ::
  "bool \<Rightarrow> WKB_Context \<Rightarrow> string \<Rightarrow> bool \<Rightarrow> bool \<Rightarrow> (error + PyObject list) \<times> WKB_Context" where
  "wkb_UnpackRest robe c format coerce strict =
     (let (formatByteSize, itemCount) = FormatByteSize format;
          formatBitSize = push_bit 3 formatByteSize;
          remainingBits = bitLimit c - currBitOffset c
      in if formatBitSize = 0 then (Inl Fault, c)
         else if strict \<and> remainingBits mod formatBitSize \<noteq> 0 then (Inl ValueError, c)
         else
           let groupCount = unat (remainingBits div formatBitSize) in
           if 0 < groupCount then
             wkb_UnpackRest_loop robe format (coerce \<and> itemCount = 1) (unat itemCount)
               formatBitSize groupCount 0 (replicate groupCount PyNull) c
           else (Inr [], c))"

section \<open>filewalkerbit.c: cursors that share an open file\<close>

text \<open>
  A context holds the \<open>FILE\<close> pointer and a pointer to the reference count that all
  cursors on the file share, so the model keeps the contexts and the counters in a
  store.  \<open>fclosed\<close> lists the files on which \<open>fclose\<close> was called, latest first.
  A counter or context that was passed to \<open>PyMem_Free\<close> is no longer in the store;
  using it is a fault.
\<close>

record FWKB_Context =
  fwkb_f :: nat
  refCount :: nat
  fileBitSize :: ulong
  fwkb_origBitStart :: ulong
  fwkb_currBitOffset :: ulong
  fwkb_bitLimit :: ulong
  fwkb_isBigEndian :: bool

record FWKB_Store =
  contexts :: "nat \<rightharpoonup> FWKB_Context"
  counters :: "nat \<rightharpoonup> ulong"
  fclosed :: "nat list"

text \<open>\<open>FreeContext\<close> of filewalkerbit.c, for the context at address \<open>p\<close>.\<close>

definition fwkb_FreeContext :: "FWKB_Store \<Rightarrow> nat \<Rightarrow> error + FWKB_Store" where
  "fwkb_FreeContext h p =
     (case contexts h p of
        None \<Rightarrow> Inl Fault
      | Some c \<Rightarrow>
          (case counters h (refCount c) of
             None \<Rightarrow> Inl Fault
           | Some n \<Rightarrow>
               let h1 = h\<lparr>counters := (counters h)(refCount c \<mapsto> n - 1)\<rparr>;
                   h2 = (if n - 1 = 0
                         then h1\<lparr>fclosed := fwkb_f c # fclosed h1,
                                counters := (counters h1)(refCount c := None)\<rparr>
                         else h1)
               in Inr (h2\<lparr>contexts := (contexts h2)(p := None)\<rparr>)))"

text \<open>
  \<open>fwkb_SubWalkerSetup\<close> for the cursor at \<open>p\<close>.  \<open>newPyLimit\<close> is \<open>None\<close> or an integer
  in the range of \<open>long\<close> (then \<open>PyLong_AsLong\<close> sets no error); \<open>q\<close> is the address
  that \<open>PyMem_Malloc\<close> returns for the new context.  The result is the address of
  the new context, which the capsule holds.
\<close>

definition fwkb_SubWalkerSetup ::
  "FWKB_Store \<Rightarrow> nat \<Rightarrow> ulong \<Rightarrow> bool \<Rightarrow> bool \<Rightarrow> ulong option \<Rightarrow> nat \<Rightarrow>
   error + (nat \<times> FWKB_Store)" where
  "fwkb_SubWalkerSetup h p bitOffset relative anchor newPyLimit q =
     (case contexts h p of
        None \<Rightarrow> Inl Fault
      | Some c \<Rightarrow>
          let bitOffset1 =
                (if \<not> anchor
                 then bitOffset + (if relative then fwkb_currBitOffset c else fwkb_origBitStart c)
                 else bitOffset);
              newBitLimit =
                (case newPyLimit of
                   None \<Rightarrow> fwkb_bitLimit c
                 | Some v \<Rightarrow>
                     if anchor then
                       (let v1 = (if v = 0 then fileBitSize c else v)
                        in if fileBitSize c < v1 then fileBitSize c else v1)
                     else
                       (let v1 = (if relative then v + bitOffset1 else v)
                        in if fwkb_bitLimit c < v1 then fwkb_bitLimit c else v1));
              bitOffset2 = (if newBitLimit < bitOffset1 then newBitLimit else bitOffset1);
              newContext = \<lparr>fwkb_f = fwkb_f c, refCount = refCount c, fileBitSize = fileBitSize c,
                            fwkb_origBitStart = bitOffset2, fwkb_currBitOffset = bitOffset2,
                            fwkb_bitLimit = newBitLimit, fwkb_isBigEndian = fwkb_isBigEndian c\<rparr>
          in case counters h (refCount c) of
               None \<Rightarrow> Inl Fault
             | Some n \<Rightarrow>
                 Inr (q, h\<lparr>contexts := (contexts h)(q \<mapsto> newContext),
                           counters := (counters h)(refCount c \<mapsto> n + 1)\<rparr>))"

section \<open>utilities.c: packing a Pascal string\<close>

text \<open>
  \<open>strlen\<close> on the buffer of a bytes object, which ends with a zero byte after its
  contents.
\<close>

definition strlen :: "byte list \<Rightarrow> nat" where
  "strlen s = length (takeWhile (\<lambda>b. b \<noteq> 0) s)"

text \<open>
  Case \<open>'p'\<close> of \<open>ut_Pack\<close>: the bytes written through \<open>walk\<close> for the argument \<open>s\<close>.
  \<open>repeat\<close> is the result of \<open>GetNextRepeat\<close>, which is never 0; \<open>(char)\<close> keeps the
  low byte.
\<close>

definition ut_Pack_p :: "ulong \<Rightarrow> byte list \<Rightarrow> byte list" where
  "ut_Pack_p repeat s =
     (let cStringLen0 = strlen s;
          cStringLen = (if unat repeat \<le> cStringLen0 then unat repeat - 1 else cStringLen0);
          leftOvers = unat repeat - 1 - cStringLen
      in (of_nat (if 255 < cStringLen then 255 else cStringLen) :: byte) #
         take cStringLen s @ replicate leftOvers 0)"

section \<open>Reference: slices of the bit sequence of a buffer\<close>

text \<open>
  The bits of a byte, most significant first, and the bit sequence of a buffer.
  \<open>bit_slice buf pos n\<close> is the manual computation of an extraction: the \<open>n\<close> bits
  that start at bit \<open>pos\<close>, packed left-justified into bytes, the last byte padded
  with zero bits.
\<close>

definition byte_bits :: "byte \<Rightarrow> bool list" where
  "byte_bits b = map (\<lambda>j. bit b (7 - j)) [0..<8]"

definition bits_of :: "byte list \<Rightarrow> bool list" where
  "bits_of bs = concat (map byte_bits bs)"

definition byte_of_bits :: "bool list \<Rightarrow> byte" where
  "byte_of_bits bs = horner_sum of_bool 2 (rev (take 8 (bs @ replicate 8 False)))"

function bytes_of_bits :: "bool list \<Rightarrow> byte list" where
  "bytes_of_bits bs =
     (if bs = [] then [] else byte_of_bits (take 8 bs) # bytes_of_bits (drop 8 bs))"
  by pat_completeness auto
termination
  by (relation "measure length") auto

definition bit_slice :: "byte list \<Rightarrow> nat \<Rightarrow> nat \<Rightarrow> byte list" where
  "bit_slice buf pos n = bytes_of_bits (take n (drop pos (bits_of buf)))"

text \<open>The position of a walker.c cursor in bits.\<close>

definition wk_bit_position :: "WK_Context \<Rightarrow> nat" where
  "wk_bit_position c = 8 * unat (currOffset c) + unat (phase c)"

text \<open>
  For the proofs: the two branches of \<open>wk_BytesFromBits\<close> as functions of the number of
  whole bytes \<open>k\<close> and of the remaining bits \<open>r\<close>.
\<close>

definition wk_aligned :: "byte list \<Rightarrow> nat \<Rightarrow> nat \<Rightarrow> nat \<Rightarrow> byte list option" where
  "wk_aligned mem from k r =
    (case wk_copy_loop mem from k of
      None \<Rightarrow> None
    | Some out \<Rightarrow>
        if r \<noteq> 0 then
          (case peek mem (from + k) of
             None \<Rightarrow> None
           | Some a \<Rightarrow> Some (out @ [a AND highMasks (8 - r)]))
        else Some out)"

definition wk_shifted :: "byte list \<Rightarrow> nat \<Rightarrow> nat \<Rightarrow> nat \<Rightarrow> nat \<Rightarrow> byte list option" where
  "wk_shifted mem p from k r =
    (case wk_shift_loop mem p from k of
      None \<Rightarrow> None
    | Some out \<Rightarrow>
        (case wk_shift_tail mem p (from + k) r k of
           None \<Rightarrow> None
         | Some (t, q) \<Rightarrow> Some (out @ t)))"

declare wkb_aligned.simps [simp del] wkb_shifted.simps [simp del] bytes_of_bits.simps [simp del]

text \<open>
  The contract of an extraction in the words of the specification: \<open>out\<close> has
  \<open>ceil(n/8)\<close> bytes, holds the \<open>n\<close> bits that start at bit \<open>pos\<close> of \<open>buf\<close>, left-justified,
  and the bits of the last byte beyond \<open>n\<close> are zero.
\<close>

definition extracts :: "byte list \<Rightarrow> nat \<Rightarrow> nat \<Rightarrow> byte list \<Rightarrow> bool" where
  "extracts buf pos n out \<longleftrightarrow>
     length out = (n + 7) div 8 \<and>
     bits_of out = take n (drop pos (bits_of buf)) @ replicate (8 * length out - n) False"

section \<open>Reference: 64-bit integers from two halves\<close>

text \<open>
  The decoding of a 64-bit integer as the format description words it: the eight
  bytes taken in the requested byte order, a high and a low half of four bytes each,
  combined as \<open>(high << 32) | low\<close>; for a signed code with bit 31 of the high half
  set, \<open>2^64\<close> is subtracted.
\<close>

definition half32 :: "byte list \<Rightarrow> int" where
  "half32 bs = foldl (\<lambda>v b. 256 * v + uint b) 0 bs"

definition spec_decode64 :: "bool \<Rightarrow> bool \<Rightarrow> byte list \<Rightarrow> int" where
  "spec_decode64 bigEndian isSigned bs =
     (let ordered = (if bigEndian then bs else rev bs);
          high = half32 (take 4 ordered);
          low = half32 (drop 4 ordered);
          combined = push_bit 32 high OR low
      in if isSigned \<and> bit high 31 then combined - 2 ^ 64 else combined)"

section \<open>Example data\<close>

text \<open>A store with one cursor on the open file 7, which alone holds the file.\<close>

definition parent_example :: FWKB_Context where
  "parent_example = \<lparr>fwkb_f = 7, refCount = 0, fileBitSize = 64, fwkb_origBitStart = 0,
         fwkb_currBitOffset = 16, fwkb_bitLimit = 64, fwkb_isBigEndian = True\<rparr>"
definition store_example :: FWKB_Store where
  "store_example = \<lparr>contexts = [0 \<mapsto> parent_example], counters = [0 \<mapsto> 1], fclosed = []\<rparr>"

section \<open>Reference: the sizes of a format\<close>

text \<open>
  A format as a list of tokens: the digits of the count (none when it is omitted) and
  the code.  \<open>unit_size\<close> is the table of bytes per unit, \<open>items_of\<close> the number of
  items of a token with the count \<open>n\<close>.
\<close>

type_synonym token = "string \<times> char"

definition render :: "token list \<Rightarrow> string" where
  "render ts = concat (map (\<lambda>(ds, c). ds @ [c]) ts)"

definition decimal :: "string \<Rightarrow> nat" where
  "decimal ds = foldl (\<lambda>v d. 10 * v + (of_char d - 48)) 0 ds"

definition unit_size :: "char \<Rightarrow> nat" where
  "unit_size c =
     (if c \<in> set ''Bbcpsx'' then 1 else if c \<in> set ''Hh'' then 2
      else if c \<in> set ''Tt'' then 3 else if c \<in> set ''IiLlf'' then 4
      else if c \<in> set ''Qqd'' then 8 else 0)"

definition items_of :: "char \<Rightarrow> nat \<Rightarrow> nat" where
  "items_of c n =
     (if c \<in> set ''ps'' then 1 else if c = CHR ''x'' then 0
      else if c \<in> set ''<>!@='' then 0 else n)"

text \<open>
  The sizes as the format description gives them: the count of a token is its decimal
  prefix, or 1 when the prefix is omitted.
\<close>

definition spec_count :: "string \<Rightarrow> nat" where
  "spec_count ds = (if ds = [] then 1 else decimal ds)"

definition spec_size :: "token list \<Rightarrow> nat" where
  "spec_size ts = sum_list (map (\<lambda>(ds, c). unit_size c * spec_count ds) ts)"

definition spec_items :: "token list \<Rightarrow> nat" where
  "spec_items ts = sum_list (map (\<lambda>(ds, c). items_of c (spec_count ds)) ts)"

text \<open>
  The sizes with the count as the parsers take it: a prefix that is omitted or has
  the value 0 counts as 1.
\<close>

definition count_of :: "string \<Rightarrow> nat" where
  "count_of ds = (if decimal ds = 0 then 1 else decimal ds)"

definition format_size :: "token list \<Rightarrow> nat" where
  "format_size ts = sum_list (map (\<lambda>(ds, c). unit_size c * count_of ds) ts)"

definition format_items :: "token list \<Rightarrow> nat" where
  "format_items ts = sum_list (map (\<lambda>(ds, c). items_of c (count_of ds)) ts)"

text \<open>
  The tokens of the grammar, with counts in the range of \<open>unsigned long\<close>; and the
  tokens in which an endianness code carries no count.
\<close>

definition valid_token :: "token \<Rightarrow> bool" where
  "valid_token t =
     (case t of (ds, c) \<Rightarrow>
        list_all is_digit ds \<and> c \<in> set ''BbHhTtIiLlfdQqcpsx<>!@='' \<and> decimal ds < 2 ^ 64)"

definition plain_endian :: "token \<Rightarrow> bool" where
  "plain_endian t = (case t of (ds, c) \<Rightarrow> c \<in> set ''<>!@='' \<longrightarrow> ds = [])"

section \<open>Reference: the size of one repetition\<close>

text \<open>The size in bits of one repetition of a format, as \<open>wkb_UnpackRest\<close> computes it.\<close>

definition formatBitSize_of :: "string \<Rightarrow> ulong" where
  "formatBitSize_of format = push_bit 3 (fst (FormatByteSize format))"

section \<open>Bit extraction\<close>

lemma length_byte_bits [simp]: "length (byte_bits b) = 8"
  by (simp add: byte_bits_def)

lemma nth_byte_bits: "j < 8 \<Longrightarrow> byte_bits b ! j = bit b (7 - j)"
  by (simp add: byte_bits_def)

lemma shl_byte_eq: "shl_byte a p = push_bit p a"
  unfolding shl_byte_def
  by (rule bit_word_eqI) (auto simp add: bit_simps)

lemma shr_byte_eq: "shr_byte a p = drop_bit p a"
  unfolding shr_byte_def
  by (rule bit_word_eqI) (auto simp add: bit_simps dest: bit_imp_le_length)

lemma highMasks_eq: "j < 8 \<Longrightarrow> highMasks j = push_bit j 255"
proof -
  assume "j < 8"
  then consider "j = 0" | "j = 1" | "j = 2" | "j = 3" | "j = 4" | "j = 5" | "j = 6" | "j = 7"
    by linarith
  then show ?thesis
    by cases (simp_all add: highMasks_def push_bit_eq_mult)
qed

lemma bit_highMasks: "j < 8 \<Longrightarrow> bit (highMasks j) m \<longleftrightarrow> j \<le> m \<and> m < 8"
proof -
  assume j: "j < 8"
  have "(255 :: byte) = - 1" by simp
  then have "highMasks j = push_bit j (- 1)" using j by (simp only: highMasks_eq)
  then show ?thesis by (auto simp add: bit_simps)
qed

lemma byte_bits_shift:
  "p < 8 \<Longrightarrow> byte_bits (shl_byte a p OR shr_byte b (8 - p)) = drop p (byte_bits a) @ take p (byte_bits b)"
proof (rule nth_equalityI)
  show "length (byte_bits (shl_byte a p OR shr_byte b (8 - p))) = length (drop p (byte_bits a) @ take p (byte_bits b))"
    if "p < 8" using that by simp
next
  fix i assume p: "p < 8" and "i < length (byte_bits (shl_byte a p OR shr_byte b (8 - p)))"
  then have i: "i < 8" by simp
  show "byte_bits (shl_byte a p OR shr_byte b (8 - p)) ! i = (drop p (byte_bits a) @ take p (byte_bits b)) ! i"
  proof (cases "i < 8 - p")
    case True
    then have "7 - i + (8 - p) \<ge> 8" using p i by simp
    then have "\<not> bit b (7 - i + (8 - p))" using bit_imp_le_length [of b "7 - i + (8 - p)"] by auto
    moreover have "7 - i - p = 7 - (p + i)" by simp
    moreover have "p \<le> 7 - i" using True by simp
    ultimately show ?thesis using True p i
      by (auto simp add: nth_byte_bits nth_append shl_byte_eq shr_byte_eq bit_simps add.commute)
  next
    case False
    then have "\<not> p \<le> 7 - i" using p i by simp
    moreover have "7 - i + (8 - p) = 7 - (i - (8 - p))" using False p i by simp
    ultimately show ?thesis using False p i
      by (auto simp add: nth_byte_bits nth_append shl_byte_eq shr_byte_eq bit_simps add.commute)
  qed
qed

lemma byte_bits_mask:
  "0 < k \<Longrightarrow> k \<le> 8 \<Longrightarrow> byte_bits (a AND highMasks (8 - k)) = take k (byte_bits a) @ replicate (8 - k) False"
  apply (rule nth_equalityI)
   apply simp
  apply (auto simp add: nth_byte_bits nth_append bit_simps bit_highMasks)
  done

lemma byte_bits_shl:
  "p < 8 \<Longrightarrow> byte_bits (shl_byte a p) = drop p (byte_bits a) @ replicate p False"
  apply (rule nth_equalityI)
   apply simp
  apply (auto simp add: nth_byte_bits nth_append shl_byte_eq bit_simps add.commute)
  done

lemma bits_of_Nil [simp]: "bits_of [] = []"
  by (simp add: bits_of_def)

lemma bits_of_Cons [simp]: "bits_of (a # xs) = byte_bits a @ bits_of xs"
  by (simp add: bits_of_def)

lemma bits_of_append [simp]: "bits_of (xs @ ys) = bits_of xs @ bits_of ys"
  by (simp add: bits_of_def)

lemma length_bits_of [simp]: "length (bits_of xs) = 8 * length xs"
  by (induction xs) simp_all

lemma drop_bits_of: "drop (8 * k) (bits_of xs) = bits_of (drop k xs)"
proof (induction xs arbitrary: k)
  case Nil
  then show ?case by simp
next
  case (Cons a xs)
  then show ?case by (cases k) simp_all
qed

lemma peek_Some: "i < length mem \<Longrightarrow> peek mem i = Some (mem ! i)"
  by (simp add: peek_def)

lemma bits_of_drop_step:
  "i < length mem \<Longrightarrow> bits_of (drop i mem) = byte_bits (mem ! i) @ bits_of (drop (Suc i) mem)"
  by (simp flip: Cons_nth_drop_Suc)

lemma wkb_aligned_bits:
  "8 * from + n \<le> 8 * length mem \<Longrightarrow>
   \<exists>out. wkb_aligned mem from n = Some out \<and> length out = (n + 7) div 8 \<and>
     bits_of out = take n (bits_of (drop from mem)) @ replicate (8 * length out - n) False"
proof (induction mem "from" n rule: wkb_aligned.induct)
  case (1 mem "from" n)
  show ?case
  proof (cases "8 \<le> n")
    case True
    then have lt: "from < length mem" using "1.prems" by simp
    have "8 * (from + 1) + (n - 8) \<le> 8 * length mem" using True "1.prems" by simp
    from "1.IH" [OF True peek_Some [OF lt] this]
    obtain out where out: "wkb_aligned mem (from + 1) (n - 8) = Some out"
      "length out = (n - 8 + 7) div 8"
      "bits_of out = take (n - 8) (bits_of (drop (from + 1) mem)) @ replicate (8 * length out - (n - 8)) False"
      by blast
    have eq: "wkb_aligned mem from n = Some (mem ! from # out)"
      using True lt out(1) by (subst wkb_aligned.simps) (simp add: peek_Some)
    have len: "length (mem ! from # out) = (n + 7) div 8"
      using True out(2) by simp
    have "bits_of (mem ! from # out) =
        take n (bits_of (drop from mem)) @ replicate (8 * length (mem ! from # out) - n) False"
      using True lt out(3) by (simp add: bits_of_drop_step)
    with eq len show ?thesis by blast
  next
    case False
    show ?thesis
    proof (cases "n = 0")
      case True
      then show ?thesis by (subst wkb_aligned.simps) simp
    next
      case n0: False
      then have lt: "from < length mem" using "1.prems" by simp
      have eq: "wkb_aligned mem from n = Some [mem ! from AND highMasks (8 - n)]"
        using False n0 lt by (subst wkb_aligned.simps) (simp add: peek_Some)
      have "(n + 7) div 8 = 1" using False n0 by simp
      moreover have "bits_of [mem ! from AND highMasks (8 - n)] =
          take n (bits_of (drop from mem)) @ replicate (8 - n) False"
        using False n0 lt by (simp add: bits_of_drop_step byte_bits_mask)
      ultimately show ?thesis using eq by simp
    qed
  qed
qed

lemma take_shifted_pair:
  assumes "p < 8" "8 \<le> n"
  shows "take n (drop p (byte_bits a @ byte_bits b @ R)) =
         (drop p (byte_bits a) @ take p (byte_bits b)) @ take (n - 8) (drop p (byte_bits b @ R))"
proof -
  have "take n (drop p (byte_bits a @ byte_bits b @ R)) =
        drop p (byte_bits a) @ take (n - (8 - p)) (byte_bits b @ R)"
    using assms by simp
  also have "n - (8 - p) = p + (n - 8)" using assms by simp
  also have "take (p + (n - 8)) (byte_bits b @ R) =
        take p (byte_bits b) @ take (n - 8) (drop p (byte_bits b @ R))"
    using assms by (subst take_add) simp
  finally show ?thesis by simp
qed

lemma wkb_shifted_bits:
  "0 < p \<Longrightarrow> p < 8 \<Longrightarrow> 8 * from + p + n \<le> 8 * length mem \<Longrightarrow>
   \<exists>out. wkb_shifted mem p from n = Some out \<and> length out = (n + 7) div 8 \<and>
     bits_of out = take n (drop p (bits_of (drop from mem))) @ replicate (8 * length out - n) False"
proof (induction mem p "from" n rule: wkb_shifted.induct)
  case (1 mem p "from" n)
  note p = \<open>0 < p\<close> \<open>p < 8\<close>
  show ?case
  proof (cases "8 \<le> n")
    case True
    then have lt: "from < length mem" "from + 1 < length mem" using "1.prems" by simp_all
    have "8 * (from + 1) + p + (n - 8) \<le> 8 * length mem" using True "1.prems" by simp
    from "1.IH" [OF refl True refl peek_Some [OF lt(1)] peek_Some [OF lt(2)] p this]
    obtain out where out: "wkb_shifted mem p (from + 1) (n - 8) = Some out"
      "length out = (n - 8 + 7) div 8"
      "bits_of out = take (n - 8) (drop p (bits_of (drop (from + 1) mem))) @ replicate (8 * length out - (n - 8)) False"
      by blast
    let ?o = "shl_byte (mem ! from) p OR shr_byte (mem ! (from + 1)) (8 - p)"
    have eq: "wkb_shifted mem p from n = Some (?o # out)"
      using True lt out(1) by (subst wkb_shifted.simps) (simp add: peek_Some)
    have len: "length (?o # out) = (n + 7) div 8"
      using True out(2) by simp
    have "bits_of (drop from mem) =
        byte_bits (mem ! from) @ byte_bits (mem ! (from + 1)) @ bits_of (drop (from + 2) mem)"
      using lt by (simp add: bits_of_drop_step)
    moreover have "bits_of (drop (from + 1) mem) =
        byte_bits (mem ! (from + 1)) @ bits_of (drop (from + 2) mem)"
      using lt bits_of_drop_step [of "from + 1" mem] by simp
    ultimately have "bits_of (?o # out) =
        take n (drop p (bits_of (drop from mem))) @ replicate (8 * length (?o # out) - n) False"
      using True p out(3) by (simp only: bits_of_Cons byte_bits_shift take_shifted_pair) simp
    with eq len show ?thesis by blast
  next
    case False
    show ?thesis
    proof (cases "n = 0")
      case True
      then show ?thesis by (subst wkb_shifted.simps) simp
    next
      case n0: False
      then have lt: "from < length mem" using "1.prems" by simp
      have one: "(n + 7) div 8 = 1" using False n0 by simp
      show ?thesis
      proof (cases "n \<le> 8 - p")
        case le: True
        have eq: "wkb_shifted mem p from n = Some [shl_byte (mem ! from) p AND highMasks (8 - n)]"
          using False n0 lt le by (subst wkb_shifted.simps) (simp add: peek_Some)
        have "bits_of [shl_byte (mem ! from) p AND highMasks (8 - n)] =
            take n (drop p (bits_of (drop from mem))) @ replicate (8 - n) False"
          using False n0 lt le p by (simp add: bits_of_drop_step byte_bits_mask byte_bits_shl)
        then show ?thesis using eq one by simp
      next
        case gt: False
        then have lt2: "from + 1 < length mem" using "1.prems" p by simp
        define k where "k = n - (8 - p)"
        have k: "0 < k" "k < p" "k \<le> 8" "n = k + (8 - p)" using gt False p by (simp_all add: k_def)
        let ?o = "shl_byte (mem ! from) p OR shr_byte (mem ! (from + 1) AND highMasks (8 - k)) (8 - p)"
        have eq: "wkb_shifted mem p from n = Some [?o]"
          using False n0 lt lt2 gt by (subst wkb_shifted.simps) (simp add: peek_Some Let_def k_def)
        have two: "bits_of (drop from mem) =
            byte_bits (mem ! from) @ byte_bits (mem ! (from + 1)) @ bits_of (drop (from + 2) mem)"
          using lt lt2 by (simp add: bits_of_drop_step)
        have m: "byte_bits (mem ! (from + 1) AND highMasks (8 - k)) =
            take k (byte_bits (mem ! (from + 1))) @ replicate (8 - k) False"
          using k by (intro byte_bits_mask)
        have "byte_bits ?o = drop p (byte_bits (mem ! from)) @
            take p (take k (byte_bits (mem ! (from + 1))) @ replicate (8 - k) False)"
          using p by (simp only: byte_bits_shift m)
        also have "\<dots> = drop p (byte_bits (mem ! from)) @
            take k (byte_bits (mem ! (from + 1))) @ replicate (p - k) False"
          using k p by (simp add: min_def)
        also have "\<dots> = take n (drop p (bits_of (drop from mem))) @ replicate (8 - n) False"
          using k p by (simp add: two)
        finally have "bits_of [?o] =
            take n (drop p (bits_of (drop from mem))) @ replicate (8 - n) False"
          by simp
        then show ?thesis using eq one by simp
      qed
    qed
  qed
qed

lemma bytes_of_bits_Nil [simp]: "bytes_of_bits [] = []"
  by (subst bytes_of_bits.simps) simp

lemma upt_8: "[0..<8] = [0, 1, 2, 3, 4, 5, 6, 7::nat]"
  by (simp add: upt_rec)

lemma byte_bits_rev: "byte_bits b = rev (map (bit b) [0..<8])"
  by (simp add: byte_bits_def upt_8)

lemma byte_of_byte_bits [simp]: "byte_of_bits (byte_bits b) = b"
proof -
  have "byte_of_bits (byte_bits b) = horner_sum of_bool 2 (map (bit b) [0..<8])"
    by (simp add: byte_of_bits_def byte_bits_rev)
  also have "\<dots> = take_bit 8 b"
    by (rule horner_sum_bit_eq_take_bit)
  finally show ?thesis by (simp add: take_bit_word_eq_self)
qed

lemma byte_of_bits_pad:
  "length bs \<le> 8 \<Longrightarrow> byte_of_bits (bs @ replicate k False) = byte_of_bits bs"
proof -
  assume "length bs \<le> 8"
  then have "take 8 ((bs @ replicate k False) @ replicate 8 False) = take 8 (bs @ replicate 8 False)"
    by (simp add: min_def flip: replicate_add)
  then show ?thesis by (simp only: byte_of_bits_def)
qed

lemma bytes_of_bits_of [simp]: "bytes_of_bits (bits_of out) = out"
proof (induction out)
  case Nil
  then show ?case by simp
next
  case (Cons a out)
  have "byte_bits a @ bits_of out \<noteq> []"
    using length_byte_bits [of a] by (metis append_is_Nil_conv length_0_conv zero_neq_numeral)
  then show ?case
    using Cons by (subst bytes_of_bits.simps) simp
qed

lemma bytes_of_bits_pad:
  "length bs + pad = 8 * m \<Longrightarrow> pad < 8 \<Longrightarrow>
   bytes_of_bits (bs @ replicate pad False) = bytes_of_bits bs"
proof (induction bs arbitrary: m rule: bytes_of_bits.induct)
  case (1 bs)
  show ?case
  proof (cases "bs = []")
    case True
    with "1.prems" have "pad = 0" by (cases m) simp_all
    with True show ?thesis by simp
  next
    case False
    show ?thesis
    proof (cases "length bs \<le> 8")
      case True
      then have "length bs + pad = 8" using "1.prems" False by (cases m) auto
      then have t: "take 8 (bs @ replicate pad False) = bs @ replicate pad False"
        "drop 8 (bs @ replicate pad False) = []" "take 8 bs = bs" "drop 8 bs = []"
        using True by simp_all
      have e: "bs @ replicate pad False \<noteq> []" using False by simp
      have "bytes_of_bits (bs @ replicate pad False) = [byte_of_bits (bs @ replicate pad False)]"
        by (subst bytes_of_bits.simps) (simp only: t e if_False bytes_of_bits_Nil)
      moreover have "bytes_of_bits bs = [byte_of_bits bs]"
        by (subst bytes_of_bits.simps) (simp only: t False if_False bytes_of_bits_Nil)
      ultimately show ?thesis using True by (simp add: byte_of_bits_pad)
    next
      case gt: False
      then obtain m' where m': "m = Suc m'" using "1.prems" by (cases m) auto
      have "length (drop 8 bs) + pad = 8 * m'" using gt "1.prems" m' by simp
      from "1.IH" [OF False this "1.prems"(2)]
      have ih: "bytes_of_bits (drop 8 bs @ replicate pad False) = bytes_of_bits (drop 8 bs)" .
      have "bytes_of_bits (bs @ replicate pad False) =
          byte_of_bits (take 8 bs) # bytes_of_bits (drop 8 bs @ replicate pad False)"
        using gt False by (subst bytes_of_bits.simps) simp
      also have "\<dots> = bytes_of_bits bs"
        using False ih by (subst (2) bytes_of_bits.simps) simp
      finally show ?thesis .
    qed
  qed
qed

lemma bits_slice_unique:
  assumes "bits_of out = take n (drop pos (bits_of buf)) @ replicate (8 * length out - n) False"
    and "length out = (n + 7) div 8" and "pos + n \<le> 8 * length buf"
  shows "out = bit_slice buf pos n"
proof -
  have l: "length (take n (drop pos (bits_of buf))) = n" using assms(3) by simp
  have "n \<le> 8 * length out" "8 * length out - n < 8" using assms(2) by auto
  then have "length (take n (drop pos (bits_of buf))) + (8 * length out - n) = 8 * length out"
    using l by simp
  from bytes_of_bits_pad [OF this \<open>8 * length out - n < 8\<close>]
  have "bytes_of_bits (bits_of out) = bit_slice buf pos n"
    by (simp only: assms(1) [symmetric] bit_slice_def)
  then show ?thesis by simp
qed

lemma unat_and_7: "unat (w AND 7) = unat w mod 8" for w :: ulong
proof -
  have "(7 :: ulong) = mask 3" by (simp add: mask_eq_exp_minus_1)
  then have "w AND 7 = take_bit 3 w" by (simp add: take_bit_eq_mask)
  then show ?thesis by (simp add: take_bit_eq_mod unat_mod_distrib)
qed

lemma unat_shr_3: "unat (drop_bit 3 w) = unat w div 8" for w :: ulong
  by (simp add: drop_bit_eq_div unat_div_distrib)

lemma unat_add_no_wrap:
  "unat a + unat b \<le> unat l \<Longrightarrow> unat (a + b) = unat a + unat b" for a b l :: ulong
proof -
  assume "unat a + unat b \<le> unat l"
  moreover have "unat l < 2 ^ LENGTH(64)" by (rule unsigned_less)
  ultimately have "unat a + unat b < 2 ^ LENGTH(64)" by linarith
  then show ?thesis by (simp only: unat_add_lem)
qed

lemma drop_bits_of_pos:
  "drop pos (bits_of mem) = drop (pos mod 8) (bits_of (drop (pos div 8) mem))"
proof -
  have "drop pos (bits_of mem) = drop (pos mod 8 + 8 * (pos div 8)) (bits_of mem)" by simp
  also have "\<dots> = drop (pos mod 8) (drop (8 * (pos div 8)) (bits_of mem))"
    by (simp only: drop_drop)
  finally show ?thesis by (simp only: drop_bits_of)
qed

lemma wkb_BytesFromBits_slice:
  assumes fits: "unat (currBitOffset c) + unat n \<le> unat (bitLimit c)"
    and buf: "unat (bitLimit c) \<le> 8 * length (liveBuffer c)"
  shows "wkb_BytesFromBits c n =
      (Inr (bit_slice (liveBuffer c) (unat (currBitOffset c)) (unat n)),
       c\<lparr>currBitOffset := currBitOffset c + n\<rparr>)"
proof -
  let ?pos = "unat (currBitOffset c)"
  let ?mem = "liveBuffer c"
  have sum: "unat (currBitOffset c + n) = ?pos + unat n"
    using fits by (rule unat_add_no_wrap)
  then have le: "currBitOffset c + n \<le> bitLimit c"
    using fits by (simp add: word_le_nat_alt)
  have bound: "8 * (?pos div 8) + ?pos mod 8 + unat n \<le> 8 * length ?mem"
    using fits buf by simp
  have "\<exists>out. (if ?pos mod 8 = 0 then wkb_aligned ?mem (?pos div 8) (unat n)
                 else wkb_shifted ?mem (?pos mod 8) (?pos div 8) (unat n)) = Some out \<and>
          length out = (unat n + 7) div 8 \<and>
          bits_of out = take (unat n) (drop ?pos (bits_of ?mem)) @
            replicate (8 * length out - unat n) False"
  proof (cases "?pos mod 8 = 0")
    case True
    with bound have "8 * (?pos div 8) + unat n \<le> 8 * length ?mem" by simp
    from wkb_aligned_bits [OF this] True show ?thesis
      by (simp add: drop_bits_of_pos [of ?pos])
  next
    case False
    then have "0 < ?pos mod 8" "?pos mod 8 < 8" by simp_all
    from wkb_shifted_bits [OF this bound] False show ?thesis
      by (simp add: drop_bits_of_pos [of ?pos])
  qed
  then obtain out where out:
    "(if ?pos mod 8 = 0 then wkb_aligned ?mem (?pos div 8) (unat n)
      else wkb_shifted ?mem (?pos mod 8) (?pos div 8) (unat n)) = Some out"
    "length out = (unat n + 7) div 8"
    "bits_of out = take (unat n) (drop ?pos (bits_of ?mem)) @
       replicate (8 * length out - unat n) False"
    by blast
  have "?pos + unat n \<le> 8 * length ?mem" using fits buf by simp
  from bits_slice_unique [OF out(3) out(2) this]
  have "out = bit_slice ?mem ?pos (unat n)" .
  with out(1) le show ?thesis
    by (simp add: wkb_BytesFromBits_def Let_def unat_and_7 unat_shr_3)
qed

lemma wk_aligned_Suc:
  "wk_aligned mem from (Suc k) r =
     (case peek mem from of
        None \<Rightarrow> None
      | Some a \<Rightarrow> map_option ((#) a) (wk_aligned mem (from + 1) k r))"
  by (simp add: wk_aligned_def split: option.splits)

lemma wk_copy_is_aligned:
  "r < 8 \<Longrightarrow> wk_aligned mem from k r = wkb_aligned mem from (8 * k + r)"
proof (induction k arbitrary: "from")
  case 0
  then show ?case
    by (subst wkb_aligned.simps) (simp add: wk_aligned_def cong: option.case_cong)
next
  case (Suc k)
  have "wkb_aligned mem from (8 * Suc k + r) =
      (case peek mem from of
         None \<Rightarrow> None
       | Some a \<Rightarrow> map_option ((#) a) (wkb_aligned mem (from + 1) (8 * k + r)))"
    by (subst wkb_aligned.simps) (simp cong: option.case_cong)
  then show ?case
    by (simp only: wk_aligned_Suc Suc.IH [OF Suc.prems])
qed

lemma wk_shift_tail_bytes:
  "map_option fst (wk_shift_tail mem p from r s) = map_option fst (wk_shift_tail mem p from r s')"
  by (simp add: wk_shift_tail_def split: option.splits)

lemma wk_shifted_Suc:
  "wk_shifted mem p from (Suc k) r =
     (case (peek mem from, peek mem (from + 1)) of
        (Some a, Some b) \<Rightarrow>
           map_option ((#) (shl_byte a p OR shr_byte b (8 - p))) (wk_shifted mem p (from + 1) k r)
      | _ \<Rightarrow> None)"
proof -
  have "(case wk_shift_tail mem p (Suc (from + k)) r (Suc k) of
          None \<Rightarrow> None | Some (t, q) \<Rightarrow> Some (out @ t)) =
        (case wk_shift_tail mem p (Suc (from + k)) r k of
          None \<Rightarrow> None | Some (t, q) \<Rightarrow> Some (out @ t))" for out
    by (simp add: wk_shift_tail_def split: option.splits)
  then show ?thesis
    by (simp add: wk_shifted_def split: option.splits prod.splits)
qed

lemma wk_shift_is_shifted:
  "r < 8 \<Longrightarrow> 0 < p \<Longrightarrow> p < 8 \<Longrightarrow>
   wk_shifted mem p from k r = wkb_shifted mem p from (8 * k + r)"
proof (induction k arbitrary: "from")
  case 0
  have "16 - (r + p) = 8 - (r - (8 - p))" if "\<not> r + p \<le> 8" using that 0 by simp
  then show ?case using 0
    by (subst wkb_shifted.simps)
      (auto simp add: wk_shifted_def wk_shift_tail_def Let_def split: option.splits)
next
  case (Suc k)
  have "wkb_shifted mem p from (8 * Suc k + r) =
      (case (peek mem from, peek mem (from + 1)) of
         (Some a, Some b) \<Rightarrow>
            map_option ((#) (shl_byte a p OR shr_byte b (8 - p)))
              (wkb_shifted mem p (from + 1) (8 * k + r))
       | _ \<Rightarrow> None)"
    by (subst wkb_shifted.simps) (simp add: Let_def cong: option.case_cong)
  then show ?case
    by (simp only: wk_shifted_Suc Suc.IH [OF Suc.prems])
qed

lemma wk_tail_state:
  assumes "wk_shift_tail mem p from r k = Some (t, p', s)" "r < 8" "p < 8"
  shows "p' = (p + r) mod 8 \<and> s = k + (p + r) div 8"
proof (cases "r = 0")
  case True
  with assms show ?thesis by (simp add: wk_shift_tail_def)
next
  case False
  show ?thesis
  proof (cases "r + p \<le> 8")
    case True
    with assms False show ?thesis
      by (auto simp add: wk_shift_tail_def split: option.splits if_splits)
  next
    case gt: False
    then have "(p + r) div 8 = 1" "(p + r) mod 8 = p + r - 8"
      using assms(2,3) by (simp_all add: div_nat_eqI mod_if)
    with assms False gt show ?thesis
      by (auto simp add: wk_shift_tail_def add.commute split: option.splits prod.splits)
  qed
qed

lemma wk_available_unat:
  fixes l cu :: ulong and ph :: byte
  assumes "cu < l" "unat ph < 8" "8 * unat l < 2 ^ 64"
  shows "unat (8 * (l - cu) - ucast ph) = 8 * (unat l - unat cu) - unat ph"
proof -
  define x where "x = l - cu"
  have lt: "unat cu < unat l" using assms(1) by (simp add: word_less_nat_alt)
  have d: "unat x = unat l - unat cu"
    using assms(1) by (simp add: x_def unat_sub)
  have "unat (8 :: ulong) * unat x < 2 ^ LENGTH(64)"
    using assms(3) lt by (simp add: d)
  then have "unat (8 * x) = unat (8 :: ulong) * unat x"
    by (simp only: unat_mult_lem)
  then have m: "unat (8 * x) = 8 * unat x"
    by simp
  have u: "unat (ucast ph :: ulong) = unat ph"
    by (simp add: unsigned_ucast_eq take_bit_nat_eq_self_iff) (rule order_less_trans [OF unsigned_less], simp)
  have "(ucast ph :: ulong) \<le> 8 * x"
    using assms(2) lt by (simp add: word_le_nat_alt m u d)
  then have "unat (8 * x - ucast ph) = 8 * unat x - unat ph"
    by (simp add: unat_sub m u)
  then have "unat (8 * x - ucast ph) = 8 * (unat l - unat cu) - unat ph"
    by (simp only: d)
  then show ?thesis by (simp only: x_def)
qed

lemma wk_available:
  fixes c :: WK_Context
  assumes ph: "unat (phase c) < 8"
    and fits: "8 * unat (currOffset c) + unat (phase c) + unat n \<le> 8 * unat (limit c)"
    and rep: "8 * unat (limit c) < 2 ^ 64"
  shows "n \<le> (if currOffset c < limit c then 8 * (limit c - currOffset c) - ucast (phase c) else 0)"
proof (cases "currOffset c < limit c")
  case True
  have "unat n \<le> 8 * (unat (limit c) - unat (currOffset c)) - unat (phase c)"
    using fits by simp
  then have "unat n \<le> unat (8 * (limit c - currOffset c) - ucast (phase c))"
    by (simp only: wk_available_unat [OF True ph rep])
  then have "n \<le> 8 * (limit c - currOffset c) - ucast (phase c)"
    by (simp only: word_le_nat_alt)
  then show ?thesis by (simp only: True if_True)
next
  case False
  then have "unat (limit c) \<le> unat (currOffset c)" by (simp add: word_less_nat_alt)
  with fits have "unat n = 0" by simp
  then have "n = 0" by (simp add: unat_eq_zero)
  with False show ?thesis by simp
qed

lemma wk_BytesFromBits_slice:
  fixes c :: WK_Context
  assumes ph: "unat (phase c) < 8"
    and fits: "wk_bit_position c + unat n \<le> 8 * unat (limit c)"
    and buf: "unat (limit c) \<le> length (wk_liveBuffer c)"
    and rep: "8 * unat (limit c) < 2 ^ 64"
  shows "wk_BytesFromBits c n =
      (Inr (bit_slice (wk_liveBuffer c) (wk_bit_position c) (unat n)),
       c\<lparr>phase := of_nat ((unat (phase c) + unat n) mod 8),
         currOffset := currOffset c + of_nat ((unat (phase c) + unat n) div 8)\<rparr>)"
proof -
  let ?mem = "wk_liveBuffer c"
  let ?p = "unat (phase c)"
  let ?from = "unat (currOffset c)"
  let ?k = "unat n div 8"
  let ?r = "unat n mod 8"
  have fits': "8 * ?from + ?p + unat n \<le> 8 * unat (limit c)"
    using fits by (simp add: wk_bit_position_def)
  have avail: "n \<le> (if currOffset c < limit c
      then 8 * (limit c - currOffset c) - ucast (phase c) else 0)"
    using ph fits' rep by (rule wk_available)
  have n: "8 * ?k + ?r = unat n" by simp
  have bound: "8 * ?from + ?p + unat n \<le> 8 * length ?mem" using fits' buf by simp
  have pos: "drop (wk_bit_position c) (bits_of ?mem) = drop ?p (bits_of (drop ?from ?mem))"
    using ph drop_bits_of_pos [of "wk_bit_position c" ?mem] by (simp add: wk_bit_position_def)
  have total: "wk_bit_position c + unat n \<le> 8 * length ?mem"
    using bound by (simp add: wk_bit_position_def)
  show ?thesis
  proof (cases "?p = 0")
    case True
    then have p0: "phase c = 0" by (simp add: unat_eq_zero)
    from bound True have "8 * ?from + unat n \<le> 8 * length ?mem" by simp
    from wkb_aligned_bits [OF this] obtain out where out:
      "wkb_aligned ?mem ?from (unat n) = Some out" "length out = (unat n + 7) div 8"
      "bits_of out = take (unat n) (bits_of (drop ?from ?mem)) @
         replicate (8 * length out - unat n) False"
      by blast
    have "bits_of out = take (unat n) (drop (wk_bit_position c) (bits_of ?mem)) @
         replicate (8 * length out - unat n) False"
      using out(3) True by (simp add: pos)
    from bits_slice_unique [OF this out(2) total]
    have sl: "out = bit_slice ?mem (wk_bit_position c) (unat n)" .
    have al: "wk_aligned ?mem ?from ?k ?r = Some out"
      using out(1) wk_copy_is_aligned [of ?r ?mem ?from ?k] by (simp only: n)
    have id: "c\<lparr>phase := 0\<rparr> = c" using p0 by simp
    show ?thesis
    proof (cases "?r = 0")
      case r0: True
      then have "wk_copy_loop ?mem ?from ?k = Some out"
        using al by (simp add: wk_aligned_def split: option.splits)
      moreover have "(unat n) mod 8 = 0" "unat n div 8 = unat n div 8" using r0 by simp_all
      ultimately show ?thesis
        using avail True r0 sl id
        by (simp add: wk_BytesFromBits_def Let_def unat_and_7 unat_shr_3)
    next
      case r1: False
      then obtain o1 a where parts: "wk_copy_loop ?mem ?from ?k = Some o1"
        "peek ?mem (?from + ?k) = Some a" "out = o1 @ [a AND highMasks (8 - ?r)]"
        using al by (auto simp add: wk_aligned_def split: option.splits)
      show ?thesis
        using avail True r1 sl parts
        by (simp add: wk_BytesFromBits_def Let_def unat_and_7 unat_shr_3)
    qed
  next
    case False
    then have p: "0 < ?p" by simp
    from wkb_shifted_bits [OF p ph bound] obtain out where out:
      "wkb_shifted ?mem ?p ?from (unat n) = Some out" "length out = (unat n + 7) div 8"
      "bits_of out = take (unat n) (drop ?p (bits_of (drop ?from ?mem))) @
         replicate (8 * length out - unat n) False"
      by blast
    have "bits_of out = take (unat n) (drop (wk_bit_position c) (bits_of ?mem)) @
         replicate (8 * length out - unat n) False"
      using out(3) by (simp add: pos)
    from bits_slice_unique [OF this out(2) total]
    have sl: "out = bit_slice ?mem (wk_bit_position c) (unat n)" .
    have sh: "wk_shifted ?mem ?p ?from ?k ?r = Some out"
      using out(1) wk_shift_is_shifted [of ?r ?p ?mem ?from ?k] p ph by (simp only: n)
    then obtain o1 t p' s where parts:
      "wk_shift_loop ?mem ?p ?from ?k = Some o1"
      "wk_shift_tail ?mem ?p (?from + ?k) ?r ?k = Some (t, p', s)" "out = o1 @ t"
      by (auto simp add: wk_shifted_def split: option.splits prod.splits)
    from wk_tail_state [OF parts(2) _ ph]
    have st: "p' = (?p + ?r) mod 8" "s = ?k + (?p + ?r) div 8" by simp_all
    have "(?p + ?r) mod 8 = (?p + unat n) mod 8" by (simp add: mod_add_right_eq)
    moreover have "?k + (?p + ?r) div 8 = (?p + unat n) div 8"
    proof -
      have "(?p + unat n) div 8 = (?p + ?r + ?k * 8) div 8" by simp
      also have "\<dots> = (?p + ?r) div 8 + ?k" by (simp only: div_mult_self3)
      finally show ?thesis by simp
    qed
    ultimately show ?thesis
      using avail False parts st sl
      by (simp add: wk_BytesFromBits_def Let_def unat_and_7 unat_shr_3)
  qed
qed

lemma bit_slice_extracts:
  assumes "pos + n \<le> 8 * length buf"
  shows "extracts buf pos n (bit_slice buf pos n)"
proof -
  have bound: "8 * (pos div 8) + pos mod 8 + n \<le> 8 * length buf"
    using assms by simp
  have "\<exists>out. length out = (n + 7) div 8 \<and>
          bits_of out = take n (drop pos (bits_of buf)) @ replicate (8 * length out - n) False"
  proof (cases "pos mod 8 = 0")
    case True
    with bound have "8 * (pos div 8) + n \<le> 8 * length buf" by simp
    from wkb_aligned_bits [OF this] True show ?thesis
      by (auto simp add: drop_bits_of_pos [of pos])
  next
    case False
    then have "0 < pos mod 8" "pos mod 8 < 8" by simp_all
    from wkb_shifted_bits [OF this bound] False show ?thesis
      by (auto simp add: drop_bits_of_pos [of pos])
  qed
  then obtain out where out: "length out = (n + 7) div 8"
    "bits_of out = take n (drop pos (bits_of buf)) @ replicate (8 * length out - n) False"
    by blast
  from bits_slice_unique [OF out(2) out(1) assms] out show ?thesis
    by (simp add: extracts_def)
qed

lemma wk_position_advances:
  fixes k :: WK_Context
  assumes fits: "wk_bit_position k + unat m \<le> 8 * unat (limit k)"
  shows "wk_bit_position
           (k\<lparr>phase := of_nat ((unat (phase k) + unat m) mod 8),
             currOffset := currOffset k + of_nat ((unat (phase k) + unat m) div 8)\<rparr>) =
         wk_bit_position k + unat m"
proof -
  let ?q = "(unat (phase k) + unat m) div 8"
  let ?r = "(unat (phase k) + unat m) mod 8"
  have q: "unat (currOffset k) + ?q \<le> unat (limit k)"
    using fits by (simp add: wk_bit_position_def)
  have "?q \<le> unat (limit k)" using q by simp
  then have uq: "unat (of_nat ?q :: ulong) = ?q" by (rule le_unat_uoi)
  have "unat (currOffset k) + unat (of_nat ?q :: ulong) \<le> unat (limit k)"
    using q by (simp only: uq)
  then have sum: "unat (currOffset k + of_nat ?q) = unat (currOffset k) + ?q"
    using unat_add_no_wrap [of "currOffset k" "of_nat ?q" "limit k"] by (simp only: uq)
  have r: "unat (of_nat ?r :: byte) = ?r"
    by (simp add: unat_of_nat)
  have "8 * (unat (currOffset k) + ?q) + ?r = 8 * unat (currOffset k) + unat (phase k) + unat m"
    by simp
  then show ?thesis
    by (simp add: wk_bit_position_def sum r)
qed

text \<open>
  C1.  \<open>BytesFromBits\<close> of walkerbit.c, on a cursor \<open>c\<close> whose limit lies inside its
  buffer, asked for \<open>n\<close> bits with \<open>currBitOffset + n \<le> bitLimit\<close>: it returns the
  reference slice of the buffer at the current bit offset, which has \<open>ceil(n/8)\<close>
  bytes, holds exactly these \<open>n\<close> bits left-justified and has zeros in the bits of
  the last byte beyond \<open>n\<close>, and the offset advances by exactly \<open>n\<close>.
  \<open>BytesFromBits\<close> of walker.c, on a cursor \<open>k\<close> with phase 0 to 7 whose limit lies
  inside its buffer (and whose limit in bits fits an \<open>unsigned long\<close>), asked for
  \<open>m\<close> bits that end at or before the limit: the same, at the bit position
  \<open>8 * currOffset + phase\<close>, which advances by exactly \<open>m\<close>.  This covers every
  phase 0 to 7 and every bit count, 1 to 64 among them.
\<close>

theorem bytes_from_bits_extracts:
  fixes c :: WKB_Context and k :: WK_Context
  assumes "unat (currBitOffset c) + unat n \<le> unat (bitLimit c)"
    and "unat (bitLimit c) \<le> 8 * length (liveBuffer c)"
    and "unat (phase k) < 8"
    and "wk_bit_position k + unat m \<le> 8 * unat (limit k)"
    and "unat (limit k) \<le> length (wk_liveBuffer k)"
    and "8 * unat (limit k) < 2 ^ 64"
  shows "wkb_BytesFromBits c n =
           (Inr (bit_slice (liveBuffer c) (unat (currBitOffset c)) (unat n)),
            c\<lparr>currBitOffset := currBitOffset c + n\<rparr>) \<and>
         unat (currBitOffset c + n) = unat (currBitOffset c) + unat n \<and>
         extracts (liveBuffer c) (unat (currBitOffset c)) (unat n)
           (bit_slice (liveBuffer c) (unat (currBitOffset c)) (unat n)) \<and>
         wk_BytesFromBits k m =
           (Inr (bit_slice (wk_liveBuffer k) (wk_bit_position k) (unat m)),
            k\<lparr>phase := of_nat ((unat (phase k) + unat m) mod 8),
              currOffset := currOffset k + of_nat ((unat (phase k) + unat m) div 8)\<rparr>) \<and>
         wk_bit_position
           (k\<lparr>phase := of_nat ((unat (phase k) + unat m) mod 8),
             currOffset := currOffset k + of_nat ((unat (phase k) + unat m) div 8)\<rparr>) =
           wk_bit_position k + unat m \<and>
         extracts (wk_liveBuffer k) (wk_bit_position k) (unat m)
           (bit_slice (wk_liveBuffer k) (wk_bit_position k) (unat m))"
proof -
  have "unat (currBitOffset c) + unat n \<le> 8 * length (liveBuffer c)"
    using assms(1,2) by simp
  then have e1: "extracts (liveBuffer c) (unat (currBitOffset c)) (unat n)
      (bit_slice (liveBuffer c) (unat (currBitOffset c)) (unat n))"
    by (rule bit_slice_extracts)
  have "wk_bit_position k + unat m \<le> 8 * length (wk_liveBuffer k)"
    using assms(4,5) by simp
  then have e2: "extracts (wk_liveBuffer k) (wk_bit_position k) (unat m)
      (bit_slice (wk_liveBuffer k) (wk_bit_position k) (unat m))"
    by (rule bit_slice_extracts)
  show ?thesis
    using wkb_BytesFromBits_slice [OF assms(1,2)] unat_add_no_wrap [OF assms(1)] e1
      wk_BytesFromBits_slice [OF assms(3,4,5,6)] wk_position_advances [OF assms(4)] e2
    by (intro conjI)
qed

theorem bytes_from_bits_extracts_witness:
  "wkb_BytesFromBits
     \<lparr>liveBuffer = [0xAB, 0xCD, 0xEF], origBitStart = 0, currBitOffset = 4, bitLimit = 24,
      wkb_isBigEndian = True\<rparr> 12 =
     (Inr [0xBC, 0xD0],
      \<lparr>liveBuffer = [0xAB, 0xCD, 0xEF], origBitStart = 0, currBitOffset = 16, bitLimit = 24,
       wkb_isBigEndian = True\<rparr>) \<and>
   wk_BytesFromBits
     \<lparr>wk_liveBuffer = [0xAB, 0xCD, 0xEF], origStart = 0, currOffset = 1, limit = 3,
      wk_isBigEndian = True, phase = 3\<rparr> 7 =
     (Inr [0x6E],
      \<lparr>wk_liveBuffer = [0xAB, 0xCD, 0xEF], origStart = 0, currOffset = 2, limit = 3,
       wk_isBigEndian = True, phase = 2\<rparr>)"
proof -
  let ?c = "\<lparr>liveBuffer = [0xAB, 0xCD, 0xEF], origBitStart = 0, currBitOffset = 4,
             bitLimit = 24, wkb_isBigEndian = True\<rparr>"
  let ?k = "\<lparr>wk_liveBuffer = [0xAB, 0xCD, 0xEF], origStart = 0, currOffset = 1, limit = 3,
             wk_isBigEndian = True, phase = 3\<rparr>"
  have h1: "unat (currBitOffset ?c) + unat (12 :: ulong) \<le> unat (bitLimit ?c)" by simp
  have h2: "unat (bitLimit ?c) \<le> 8 * length (liveBuffer ?c)" by simp
  have h3: "unat (phase ?k) < 8" by simp
  have h4: "wk_bit_position ?k + unat (7 :: ulong) \<le> 8 * unat (limit ?k)"
    by (simp add: wk_bit_position_def)
  have h5: "unat (limit ?k) \<le> length (wk_liveBuffer ?k)" by simp
  have h6: "8 * unat (limit ?k) < 2 ^ 64" by simp
  have s1: "bit_slice [0xAB, 0xCD, 0xEF] 4 12 = [0xBC, 0xD0]" by code_simp
  have s2: "bit_slice [0xAB, 0xCD, 0xEF] 11 7 = [0x6E]" by code_simp
  from bytes_from_bits_extracts [OF h1 h2 h3 h4 h5 h6] s1 s2
  show ?thesis by (simp add: wk_bit_position_def)
qed

section \<open>Reading past the limit\<close>

lemma wkb_past_limit:
  fixes c :: WKB_Context and n :: ulong
  assumes "unat (bitLimit c) < unat (currBitOffset c) + unat n"
    and "unat (currBitOffset c) + unat n < 2 ^ 64"
  shows "wkb_BytesFromBits c n = (Inl IndexError, c)"
proof -
  have "unat (currBitOffset c + n) = unat (currBitOffset c) + unat n"
    using assms(2) by (simp add: unat_add_lem [THEN iffD1])
  then have "\<not> currBitOffset c + n \<le> bitLimit c"
    using assms(1) by (simp add: word_le_nat_alt)
  then show ?thesis by (simp add: wkb_BytesFromBits_def)
qed

lemma wk_past_limit:
  fixes k :: WK_Context and m :: ulong
  assumes ph: "unat (phase k) < 8"
    and rep: "8 * unat (limit k) < 2 ^ 64"
    and one: "m \<noteq> 0"
    and past: "8 * unat (limit k) < wk_bit_position k + unat m"
  shows "wk_BytesFromBits k m = (Inl IndexError, k)"
proof -
  have "\<not> m \<le> (if currOffset k < limit k then 8 * (limit k - currOffset k) - ucast (phase k) else 0)"
  proof (cases "currOffset k < limit k")
    case True
    have lt: "unat (currOffset k) < unat (limit k)" using True by (simp add: word_less_nat_alt)
    have "8 * (unat (limit k) - unat (currOffset k)) - unat (phase k) < unat m"
      using past lt ph by (simp add: wk_bit_position_def)
    then have "unat (8 * (limit k - currOffset k) - ucast (phase k)) < unat m"
      by (simp only: wk_available_unat [OF True ph rep])
    then show ?thesis using True by (simp add: word_le_nat_alt)
  next
    case False
    then show ?thesis using one by simp
  qed
  then show ?thesis by (simp add: wk_BytesFromBits_def Let_def)
qed

text \<open>
  C2 (as amended).  A request that ends past the limit raises \<open>IndexError\<close> and leaves
  the cursor as it was: in walkerbit.c for every bit count \<open>n\<close> (the end position
  below \<open>2^64\<close>), in walker.c for every bit count \<open>m\<close> of at least one bit (phase 0 to
  7, the limit in bits below \<open>2^64\<close>).
\<close>

theorem read_past_limit:
  fixes c :: WKB_Context and n m :: ulong and k :: WK_Context
  assumes "unat (bitLimit c) < unat (currBitOffset c) + unat n"
    and "unat (currBitOffset c) + unat n < 2 ^ 64"
    and "unat (phase k) < 8"
    and "8 * unat (limit k) < 2 ^ 64"
    and "m \<noteq> 0"
    and "8 * unat (limit k) < wk_bit_position k + unat m"
  shows "wkb_BytesFromBits c n = (Inl IndexError, c) \<and> wk_BytesFromBits k m = (Inl IndexError, k)"
  using wkb_past_limit [OF assms(1,2)] wk_past_limit [OF assms(3-6)] by simp

theorem read_past_limit_witness:
  "wkb_BytesFromBits \<lparr>liveBuffer = [0xAB, 0xCD, 0xEF], origBitStart = 0, currBitOffset = 20,
                      bitLimit = 24, wkb_isBigEndian = True\<rparr> 5
     = (Inl IndexError, \<lparr>liveBuffer = [0xAB, 0xCD, 0xEF], origBitStart = 0, currBitOffset = 20,
                      bitLimit = 24, wkb_isBigEndian = True\<rparr>) \<and>
   wk_BytesFromBits \<lparr>wk_liveBuffer = [0xAB, 0xCD, 0xEF], origStart = 0, currOffset = 2,
                     limit = 3, wk_isBigEndian = True, phase = 4\<rparr> 5
     = (Inl IndexError, \<lparr>wk_liveBuffer = [0xAB, 0xCD, 0xEF], origStart = 0, currOffset = 2,
                     limit = 3, wk_isBigEndian = True, phase = 4\<rparr>)"
proof -
  let ?c = "\<lparr>liveBuffer = [0xAB, 0xCD, 0xEF], origBitStart = 0, currBitOffset = 20,
                      bitLimit = 24, wkb_isBigEndian = True\<rparr>"
  let ?k = "\<lparr>wk_liveBuffer = [0xAB, 0xCD, 0xEF], origStart = 0, currOffset = 2,
                     limit = 3, wk_isBigEndian = True, phase = 4\<rparr>"
  have h: "unat (bitLimit ?c) < unat (currBitOffset ?c) + unat (5 :: ulong)"
    "unat (currBitOffset ?c) + unat (5 :: ulong) < 2 ^ 64"
    "unat (phase ?k) < 8" "8 * unat (limit ?k) < 2 ^ 64" "(5 :: ulong) \<noteq> 0"
    "8 * unat (limit ?k) < wk_bit_position ?k + unat (5 :: ulong)"
    by (simp_all add: wk_bit_position_def)
  show ?thesis using read_past_limit [OF h] by simp
qed

text \<open>
  The claim as stated fails in walker.c for a request of no bits: with the cursor at
  byte 5 and the limit 3 the position is past the limit, and \<open>BytesFromBits\<close> returns
  no bytes and no error, since no bits are asked of the none available.
\<close>

theorem zero_bits_past_limit:
  "wk_BytesFromBits \<lparr>wk_liveBuffer = [0xAB, 0xCD, 0xEF], origStart = 0, currOffset = 5,
                     limit = 3, wk_isBigEndian = True, phase = 0\<rparr> 0
     = (Inr [], \<lparr>wk_liveBuffer = [0xAB, 0xCD, 0xEF], origStart = 0, currOffset = 5,
                     limit = 3, wk_isBigEndian = True, phase = 0\<rparr>) \<and>
   unat (limit \<lparr>wk_liveBuffer = [0xAB, 0xCD, 0xEF], origStart = 0, currOffset = 5,
                     limit = 3, wk_isBigEndian = True, phase = 0\<rparr>)
     < unat (currOffset \<lparr>wk_liveBuffer = [0xAB, 0xCD, 0xEF], origStart = 0, currOffset = 5,
                     limit = 3, wk_isBigEndian = True, phase = 0\<rparr>) + unat (0 :: ulong)"
  by (simp add: wk_BytesFromBits_def)

section \<open>64-bit decoding\<close>

lemma byte_lt: "uint (a :: byte) < 256" "0 \<le> uint a"
  using uint_lt2p [of a] by simp_all

lemma bit_byte: "bit (a :: byte) n \<Longrightarrow> n < 8"
  using bit_imp_le_length [of a n] by simp

lemma or_add_be:
  fixes a b c d :: byte
  shows "shl_uint a 24 OR shl_uint b 16 OR shl_uint c 8 OR (ucast d :: uint)
         = shl_uint a 24 + (shl_uint b 16 + (shl_uint c 8 + ucast d))"
proof -
  have 1: "shl_uint c 8 + (ucast d :: uint) = shl_uint c 8 OR ucast d"
    by (rule disjunctive_add) (auto simp add: shl_uint_def bit_simps dest: bit_byte)
  have 2: "shl_uint b 16 + (shl_uint c 8 OR (ucast d :: uint)) = shl_uint b 16 OR (shl_uint c 8 OR ucast d)"
    by (rule disjunctive_add) (auto simp add: shl_uint_def bit_simps dest: bit_byte)
  have 3: "shl_uint a 24 + (shl_uint b 16 OR shl_uint c 8 OR (ucast d :: uint))
           = shl_uint a 24 OR (shl_uint b 16 OR shl_uint c 8 OR ucast d)"
    by (rule disjunctive_add) (auto simp add: shl_uint_def bit_simps dest: bit_byte)
  show ?thesis by (simp only: 1 2 3)
qed

lemma or_add_le:
  fixes a b c d :: byte
  shows "(ucast d :: uint) OR shl_uint c 8 OR shl_uint b 16 OR shl_uint a 24
         = shl_uint a 24 + (shl_uint b 16 + (shl_uint c 8 + ucast d))"
proof -
  have "(ucast d :: uint) OR shl_uint c 8 OR shl_uint b 16 OR shl_uint a 24
        = shl_uint a 24 OR shl_uint b 16 OR shl_uint c 8 OR (ucast d :: uint)"
    by (simp add: ac_simps)
  then show ?thesis by (simp only: or_add_be)
qed

lemma uint_assemble:
  fixes a b c d :: byte
  shows "uint (shl_uint a 24 + (shl_uint b 16 + (shl_uint c 8 + (ucast d :: uint))))
         = half32 [a, b, c, d]"
proof -
  have w: "shl_uint a 24 + (shl_uint b 16 + (shl_uint c 8 + (ucast d :: uint)))
         = word_of_int (half32 [a, b, c, d])"
    by (simp add: shl_uint_def half32_def push_bit_eq_mult algebra_simps)
  have b: "0 \<le> half32 [a, b, c, d]" "half32 [a, b, c, d] < 2 ^ 32"
    using byte_lt [of a] byte_lt [of b] byte_lt [of c] byte_lt [of d]
    by (simp_all add: half32_def)
  show ?thesis unfolding w using b
    by (simp add: uint_word_of_int_eq take_bit_int_eq_self)
qed

lemma half32_bounds: "0 \<le> half32 [a, b, c, d] \<and> half32 [a, b, c, d] < 4294967296"
  using byte_lt [of a] byte_lt [of b] byte_lt [of c] byte_lt [of d]
  by (simp add: half32_def)

lemma int_or_add:
  fixes h l :: int
  assumes "0 \<le> l" "l < 4294967296"
  shows "push_bit 32 h OR l = push_bit 32 h + l"
proof -
  have l: "take_bit 32 l = l" using assms by (simp add: take_bit_int_eq_self)
  have "\<not> bit (push_bit 32 h) n \<or> \<not> bit (take_bit 32 l) n" for n
    by (auto simp add: bit_simps)
  then have "push_bit 32 h + take_bit 32 l = push_bit 32 h OR take_bit 32 l"
    by (rule disjunctive_add)
  then show ?thesis by (simp only: l)
qed

lemma bit31:
  fixes h :: int
  assumes "0 \<le> h" "h < 4294967296"
  shows "bit h 31 \<longleftrightarrow> 2147483647 < h"
proof -
  have "h div 2147483648 = (if h < 2147483648 then 0 else 1)"
    using assms by (auto simp add: div_pos_pos_trivial intro: int_div_pos_eq [where r = "h - 2147483648"])
  then show ?thesis by (simp add: bit_iff_odd)
qed

lemma decode_Q_spec:
  "decode_Q isBigEndian c [b0, b1, b2, b3, b4, b5, b6, b7]
   = PyLong (spec_decode64 isBigEndian (c = CHR ''q'') [b0, b1, b2, b3, b4, b5, b6, b7])"
proof -
  note h = half32_bounds
  show ?thesis
    by (simp add: decode_Q_def spec_decode64_def Let_def or_add_be or_add_le uint_assemble
          int_or_add h bit31 word_less_alt)
qed


text \<open>
  C4.  For every eight bytes, cases \<open>'Q'\<close> and \<open>'q'\<close> of \<open>FormatProcess\<close> give the integer
  built from two 32-bit halves, ordered by the byte order in force, as
  \<open>(high << 32) | low\<close>, less \<open>2^64\<close> when the code is \<open>'q'\<close> and bit 31 of the high half
  is set.  Big-endian \<open>FF FF FF FF FF FF FF FF\<close> read as signed is \<open>-1\<close>, and
  \<open>00 00 00 00 00 00 00 01\<close> is 1.
\<close>

theorem decode_64_bit:
  "decode_Q isBigEndian c [b0, b1, b2, b3, b4, b5, b6, b7]
     = PyLong (spec_decode64 isBigEndian (c = CHR ''q'') [b0, b1, b2, b3, b4, b5, b6, b7]) \<and>
   FormatProcess robe [PyNull] [b0, b1, b2, b3, b4, b5, b6, b7] ''q'' 0 isBigEndian
     = Inr [PyLong (spec_decode64 isBigEndian True [b0, b1, b2, b3, b4, b5, b6, b7])] \<and>
   FormatProcess robe [PyNull] [b0, b1, b2, b3, b4, b5, b6, b7] ''Q'' 0 isBigEndian
     = Inr [PyLong (spec_decode64 isBigEndian False [b0, b1, b2, b3, b4, b5, b6, b7])] \<and>
   decode_Q True CHR ''q'' [0xFF, 0xFF, 0xFF, 0xFF, 0xFF, 0xFF, 0xFF, 0xFF] = PyLong (- 1) \<and>
   decode_Q True c [0, 0, 0, 0, 0, 0, 0, 1] = PyLong 1 \<and>
   decode_Q True CHR ''Q'' [0xFF, 0xFF, 0xFF, 0xFF, 0xFF, 0xFF, 0xFF, 0xFF] = PyLong (2 ^ 64 - 1) \<and>
   decode_Q False CHR ''q'' [0, 0, 0, 0, 0, 0, 0, 0x80] = PyLong (- (2 ^ 63))"
proof -
  have fp: "FormatProcess robe [PyNull] [b0, b1, b2, b3, b4, b5, b6, b7] [k] 0 isBigEndian
            = Inr [decode_Q isBigEndian k [b0, b1, b2, b3, b4, b5, b6, b7]]"
    if "k = CHR ''q'' \<or> k = CHR ''Q''" for k
    using that by (auto simp add: FormatProcess_def is_digit_def fp_code_def PyTuple_SetItem_def)
  have v: "decode_Q True CHR ''q'' [0xFF, 0xFF, 0xFF, 0xFF, 0xFF, 0xFF, 0xFF, 0xFF] = PyLong (- 1)"
      "decode_Q True c [0, 0, 0, 0, 0, 0, 0, 1] = PyLong 1"
      "decode_Q True CHR ''Q'' [0xFF, 0xFF, 0xFF, 0xFF, 0xFF, 0xFF, 0xFF, 0xFF] = PyLong (2 ^ 64 - 1)"
      "decode_Q False CHR ''q'' [0, 0, 0, 0, 0, 0, 0, 0x80] = PyLong (- (2 ^ 63))"
    by (simp_all add: decode_Q_def shl_uint_def)
  show ?thesis
    using fp [of "CHR ''q''"] fp [of "CHR ''Q''"] v
    by (simp add: decode_Q_spec)
qed

section \<open>Seek\<close>

lemma long_sum:
  fixes off base :: ulong
  shows "off + base = word_of_int (sint off + uint base)"
  by simp

lemma uint_of_position:
  fixes p :: int
  assumes "0 \<le> p" "p < 2 ^ 64"
  shows "uint (word_of_int p :: ulong) = p"
  using assms by (simp add: uint_word_of_int_eq take_bit_int_eq_self)


lemma sint_of_position:
  fixes p :: int
  assumes "- (2 ^ 63) \<le> p" "p < 2 ^ 63"
  shows "sint (word_of_int p :: ulong) = p"
  using assms by (simp add: sint_sbintrunc' signed_take_bit_int_eq_self)

lemma seek_check:
  fixes p :: int and l :: ulong
  assumes "- (2 ^ 63) \<le> p" "p < 2 ^ 63"
  shows "((word_of_int p :: ulong) < l \<and> 0 \<le> sint (word_of_int p :: ulong)) \<longleftrightarrow>
         (0 \<le> p \<and> p < uint l)"
proof (cases "0 \<le> p")
  case True
  then have "uint (word_of_int p :: ulong) = p" using assms by (intro uint_of_position) simp_all
  then show ?thesis using True assms by (simp add: word_less_def sint_of_position)
next
  case False
  then show ?thesis using assms by (simp add: sint_of_position)
qed

text \<open>
  C5 (as amended).  \<open>position\<close> is the offset resolved against the current offset
  (relative) or against the origin (absolute), as a \<open>long\<close>.  Without \<open>okToExceed\<close>, a
  position outside \<open>0 \<le> position < limit\<close> raises IndexError; otherwise the current
  offset becomes the position.  A failed \<open>wkb_SetOffset\<close> leaves the context as it
  was.  \<open>wk_SetOffset\<close> clears the phase first: after a failed seek the offset is
  unchanged and the phase is 0, and after a successful one the phase is 0 too.
\<close>

theorem seek_resolves:
  fixes c :: WKB_Context and k :: WK_Context and off koff :: ulong
    and relative krelative :: bool
  defines "position \<equiv> sint off + uint (if relative then currBitOffset c else origBitStart c)"
    and "kposition \<equiv> sint koff + uint (if krelative then currOffset k else origStart k)"
  assumes "- (2 ^ 63) \<le> position" "position < 2 ^ 63"
    and "- (2 ^ 63) \<le> kposition" "kposition < 2 ^ 63"
  shows "wkb_SetOffset c off relative okToExceed =
           (if \<not> okToExceed \<and> \<not> (0 \<le> position \<and> position < uint (bitLimit c))
            then (Inl IndexError, c)
            else (Inr (), c\<lparr>currBitOffset := word_of_int position\<rparr>)) \<and>
         wk_SetOffset k koff krelative kokToExceed =
           (if \<not> kokToExceed \<and> \<not> (0 \<le> kposition \<and> kposition < uint (limit k))
            then (Inl IndexError, k\<lparr>phase := 0\<rparr>)
            else (Inr (), k\<lparr>phase := 0, currOffset := word_of_int kposition\<rparr>))"
proof -
  have a: "off + (if relative then currBitOffset c else origBitStart c) = word_of_int position"
    unfolding position_def by (rule long_sum)
  have b: "koff + (if krelative then currOffset k else origStart k) = word_of_int kposition"
    unfolding kposition_def by (rule long_sum)
  have "wkb_SetOffset c off relative okToExceed =
           (if \<not> okToExceed \<and> \<not> (0 \<le> position \<and> position < uint (bitLimit c))
            then (Inl IndexError, c)
            else (Inr (), c\<lparr>currBitOffset := word_of_int position\<rparr>))"
    unfolding wkb_SetOffset_def Let_def a
    using seek_check [OF assms(3,4), of "bitLimit c"] by simp
  moreover have "(if krelative then currOffset (k\<lparr>phase := 0\<rparr>) else origStart (k\<lparr>phase := 0\<rparr>)) =
      (if krelative then currOffset k else origStart k)"
    by simp
  then have "wk_SetOffset k koff krelative kokToExceed =
           (if \<not> kokToExceed \<and> \<not> (0 \<le> kposition \<and> kposition < uint (limit k))
            then (Inl IndexError, k\<lparr>phase := 0\<rparr>)
            else (Inr (), k\<lparr>phase := 0, currOffset := word_of_int kposition\<rparr>))"
    unfolding wk_SetOffset_def Let_def
    using seek_check [OF assms(5,6), of "limit k"] by (simp only: b) simp
  ultimately show ?thesis by simp
qed

theorem seek_resolves_witness:
  "wkb_SetOffset
     \<lparr>liveBuffer = [1, 2, 3], origBitStart = 0, currBitOffset = 4, bitLimit = 24,
      wkb_isBigEndian = True\<rparr> 8 True False =
     (Inr (),
      \<lparr>liveBuffer = [1, 2, 3], origBitStart = 0, currBitOffset = 12, bitLimit = 24,
       wkb_isBigEndian = True\<rparr>) \<and>
   wk_SetOffset
     \<lparr>wk_liveBuffer = [1, 2, 3, 4], origStart = 0, currOffset = 1, limit = 4,
      wk_isBigEndian = True, phase = 3\<rparr> 10 False False =
     (Inl IndexError,
      \<lparr>wk_liveBuffer = [1, 2, 3, 4], origStart = 0, currOffset = 1, limit = 4,
       wk_isBigEndian = True, phase = 0\<rparr>)"
  using seek_resolves [where c = "\<lparr>liveBuffer = [1, 2, 3], origBitStart = 0, currBitOffset = 4,
        bitLimit = 24, wkb_isBigEndian = True\<rparr>" and off = 8 and relative = True
      and okToExceed = False
      and k = "\<lparr>wk_liveBuffer = [1, 2, 3, 4], origStart = 0, currOffset = 1, limit = 4,
        wk_isBigEndian = True, phase = 3\<rparr>" and koff = 10 and krelative = False
      and kokToExceed = False]
  by simp

text \<open>
  The claim as stated fails: a failed seek of a walker.c cursor with phase 3 leaves
  the phase at 0.
\<close>

theorem seek_failure_changes_phase:
  "fst (wk_SetOffset
          \<lparr>wk_liveBuffer = [1, 2, 3, 4], origStart = 0, currOffset = 1, limit = 4,
           wk_isBigEndian = True, phase = 3\<rparr> 10 False False) = Inl IndexError \<and>
   phase (snd (wk_SetOffset
          \<lparr>wk_liveBuffer = [1, 2, 3, 4], origStart = 0, currOffset = 1, limit = 4,
           wk_isBigEndian = True, phase = 3\<rparr> 10 False False)) \<noteq> 3"
  by (simp add: wk_SetOffset_def)

section \<open>Sizes of formats\<close>

lemma fbs_digits:
  "list_all is_digit ds \<Longrightarrow>
   FormatByteSize_loop (ds @ rest) (of_nat v, st) =
   FormatByteSize_loop rest (of_nat (foldl (\<lambda>v d. 10 * v + (of_char d - 48)) v ds), st)"
proof (induction ds arbitrary: v)
  case Nil then show ?case by simp
next
  case (Cons d ds)
  have "FormatByteSize_step d (of_nat v, st) = (of_nat (10 * v + (of_char d - 48)), st)"
    using Cons.prems by (cases st) (simp add: FormatByteSize_step_def digit_value_def)
  then show ?case using Cons.IH [of "10 * v + (of_char d - 48)"] Cons.prems by simp
qed

lemma calc_digits:
  "list_all is_digit ds \<Longrightarrow>
   CalcSizeFromFormat_loop (ds @ rest) (of_nat v, st) =
   CalcSizeFromFormat_loop rest (of_nat (foldl (\<lambda>v d. 10 * v + (of_char d - 48)) v ds), st)"
proof (induction ds arbitrary: v)
  case Nil then show ?case by simp
next
  case (Cons d ds)
  have "CalcSizeFromFormat_step d (of_nat v, st) = (of_nat (10 * v + (of_char d - 48)), st)"
    using Cons.prems by (cases st) (simp add: CalcSizeFromFormat_step_def digit_value_def Let_def)
  moreover have "of_char d \<noteq> (0 :: nat)" using Cons.prems by (auto simp add: is_digit_def)
  ultimately show ?case using Cons.IH [of "10 * v + (of_char d - 48)"] Cons.prems by simp
qed

lemma of_nat_zero64: "v < 2 ^ 64 \<Longrightarrow> (of_nat v :: ulong) = 0 \<longleftrightarrow> v = 0"
proof -
  assume "v < 2 ^ 64"
  then have "unat (of_nat v :: ulong) = v" by (simp add: unat_of_nat)
  then show ?thesis using unat_eq_zero [of "of_nat v :: ulong"] by simp
qed

lemma code_not_digit: "c \<in> set ''BbHhTtIiLlfdQqcpsx<>!@='' \<Longrightarrow> \<not> is_digit c \<and> of_char c \<noteq> (0 :: nat)"
  by (auto simp add: is_digit_def)

lemma fbs_code:
  assumes "c \<in> set ''BbHhTtIiLlfdQqcpsx<>!@=''" and "v < 2 ^ 64"
  shows "FormatByteSize_step c (of_nat v, of_nat s, of_nat i) =
         (0, of_nat (s + unit_size c * (if v = 0 then 1 else v)),
             of_nat (i + items_of c (if v = 0 then 1 else v)))"
  using assms(1) of_nat_zero64 [OF assms(2)]
  by (auto simp add: FormatByteSize_step_def is_digit_def unit_size_def items_of_def Let_def)

lemma calc_code:
  assumes "c \<in> set ''BbHhTtIiLlfdQqcpsx<>!@=''" and "v < 2 ^ 64"
    and "c \<in> set ''<>!@='' \<longrightarrow> v = 0"
  shows "CalcSizeFromFormat_step c (of_nat v, of_nat s, of_nat i) =
         (0, of_nat (s + unit_size c * (if v = 0 then 1 else v)),
             of_nat (i + items_of c (if v = 0 then 1 else v)))"
  using assms(1,3) of_nat_zero64 [OF assms(2)]
  by (auto simp add: CalcSizeFromFormat_step_def is_digit_def unit_size_def items_of_def Let_def)



lemma valid_token_pair:
  "valid_token (ds, c) \<longleftrightarrow>
     list_all is_digit ds \<and> c \<in> set ''BbHhTtIiLlfdQqcpsx<>!@='' \<and> decimal ds < 2 ^ 64"
  by (simp add: valid_token_def)

lemma plain_endian_pair: "plain_endian (ds, c) \<longleftrightarrow> (c \<in> set ''<>!@='' \<longrightarrow> ds = [])"
  by (simp add: plain_endian_def)

lemma render_Cons: "render ((ds, c) # ts) = ds @ c # render ts"
  by (simp add: render_def)

lemma fbs_tokens:
  "list_all valid_token ts \<Longrightarrow>
   FormatByteSize_loop (render ts) (0, of_nat s, of_nat i) =
   (0, of_nat (s + format_size ts), of_nat (i + format_items ts))"
proof (induction ts arbitrary: s i)
  case Nil then show ?case by (simp add: render_def format_size_def format_items_def)
next
  case (Cons t ts)
  obtain ds c where t: "t = (ds, c)" by (cases t)
  have v: "list_all is_digit ds" "c \<in> set ''BbHhTtIiLlfdQqcpsx<>!@=''" "decimal ds < 2 ^ 64"
    "list_all valid_token ts"
    using Cons.prems by (simp_all add: t valid_token_pair del: set_simps)
  have "FormatByteSize_loop (render (t # ts)) (0, of_nat s, of_nat i)
        = FormatByteSize_loop (c # render ts) (of_nat (decimal ds), of_nat s, of_nat i)"
    using fbs_digits [OF v(1), of "c # render ts" 0 "(of_nat s, of_nat i)"]
    by (simp add: t render_Cons decimal_def)
  also have "\<dots> = FormatByteSize_loop (render ts)
       (0, of_nat (s + unit_size c * count_of ds), of_nat (i + items_of c (count_of ds)))"
    by (simp only: FormatByteSize_loop.simps fbs_code [OF v(2,3)] count_of_def)
  also have "\<dots> = (0, of_nat (s + unit_size c * count_of ds + format_size ts),
                      of_nat (i + items_of c (count_of ds) + format_items ts))"
    by (rule Cons.IH [OF v(4)])
  finally show ?case by (simp add: t format_size_def format_items_def add.assoc)
qed

lemma calc_tokens:
  "list_all valid_token ts \<Longrightarrow> list_all plain_endian ts \<Longrightarrow>
   CalcSizeFromFormat_loop (render ts) (0, of_nat s, of_nat i) =
   (0, of_nat (s + format_size ts), of_nat (i + format_items ts))"
proof (induction ts arbitrary: s i)
  case Nil then show ?case by (simp add: render_def format_size_def format_items_def)
next
  case (Cons t ts)
  obtain ds c where t: "t = (ds, c)" by (cases t)
  have v: "list_all is_digit ds" "c \<in> set ''BbHhTtIiLlfdQqcpsx<>!@=''" "decimal ds < 2 ^ 64"
    "list_all valid_token ts" "list_all plain_endian ts"
    using Cons.prems by (simp_all add: t valid_token_pair del: set_simps)
  have e: "c \<in> set ''<>!@='' \<longrightarrow> decimal ds = 0"
    using Cons.prems(2) by (auto simp add: t plain_endian_pair decimal_def)
  have nz: "of_char c \<noteq> (0 :: nat)" using code_not_digit [OF v(2)] by simp
  have "CalcSizeFromFormat_loop (render (t # ts)) (0, of_nat s, of_nat i)
        = CalcSizeFromFormat_loop (c # render ts) (of_nat (decimal ds), of_nat s, of_nat i)"
    using calc_digits [OF v(1), of "c # render ts" 0 "(of_nat s, of_nat i)"]
    by (simp add: t render_Cons decimal_def)
  also have "\<dots> = CalcSizeFromFormat_loop (render ts)
       (0, of_nat (s + unit_size c * count_of ds), of_nat (i + items_of c (count_of ds)))"
    using nz by (simp only: CalcSizeFromFormat_loop.simps calc_code [OF v(2,3) e] count_of_def if_False)
  also have "\<dots> = (0, of_nat (s + unit_size c * count_of ds + format_size ts),
                      of_nat (i + items_of c (count_of ds) + format_items ts))"
    by (rule Cons.IH [OF v(4,5)])
  finally show ?case by (simp add: t format_size_def format_items_def add.assoc)
qed

text \<open>
  C3 (as amended).  For every format made of tokens of the grammar (counts below
  \<open>2^64\<close>), \<open>FormatByteSize\<close> returns, modulo \<open>2^64\<close>, the sum over the tokens of the
  bytes per unit (1 for B, b, c, p, s, x; 2 for H, h; 3 for T, t; 4 for I, i, L, l, f;
  8 for Q, q, d; 0 for an endianness code) times the count, and the number of items
  (the count for a numeric code, 1 for p and s, 0 for x and the endianness codes),
  where a count that is omitted or 0 counts as 1.  \<open>CalcSizeFromFormat\<close> returns the
  same when no endianness code carries a count.  Both give size 8 and 3 items for
  \<open>2H3x1s\<close>.
\<close>

theorem format_sizes:
  assumes "list_all valid_token ts" and "list_all valid_token us" and "list_all plain_endian us"
  shows "FormatByteSize (render ts) = (of_nat (format_size ts), of_nat (format_items ts)) \<and>
         CalcSizeFromFormat (render us) = (of_nat (format_size us), of_nat (format_items us)) \<and>
         FormatByteSize ''2H3x1s'' = (8, 3) \<and> CalcSizeFromFormat ''2H3x1s'' = (8, 3)"
proof -
  have 1: "FormatByteSize (render ts) = (of_nat (format_size ts), of_nat (format_items ts))"
    using fbs_tokens [OF assms(1), of 0 0] by (simp add: FormatByteSize_def)
  have 2: "CalcSizeFromFormat (render us) = (of_nat (format_size us), of_nat (format_items us))"
    using calc_tokens [OF assms(2,3), of 0 0] by (simp add: CalcSizeFromFormat_def)
  have 3: "FormatByteSize ''2H3x1s'' = (8, 3)"
    by (simp add: FormatByteSize_def FormatByteSize_step_def is_digit_def digit_value_def)
  have 4: "CalcSizeFromFormat ''2H3x1s'' = (8, 3)"
    by (simp add: CalcSizeFromFormat_def CalcSizeFromFormat_step_def is_digit_def digit_value_def)
  show ?thesis using 1 2 3 4 by simp
qed

theorem format_sizes_witness:
  "list_all valid_token [(''2'', CHR ''H''), (''3'', CHR ''x''), (''1'', CHR ''s'')] \<and>
   list_all plain_endian [(''2'', CHR ''H''), (''3'', CHR ''x''), (''1'', CHR ''s'')] \<and>
   render [(''2'', CHR ''H''), (''3'', CHR ''x''), (''1'', CHR ''s'')] = ''2H3x1s'' \<and>
   format_size [(''2'', CHR ''H''), (''3'', CHR ''x''), (''1'', CHR ''s'')] = 8 \<and>
   format_items [(''2'', CHR ''H''), (''3'', CHR ''x''), (''1'', CHR ''s'')] = 3 \<and>
   FormatByteSize ''2H3x1s'' = (8, 3) \<and> CalcSizeFromFormat ''2H3x1s'' = (8, 3)"
proof -
  have h: "list_all valid_token [(''2'', CHR ''H''), (''3'', CHR ''x''), (''1'', CHR ''s'')]"
     "list_all plain_endian [(''2'', CHR ''H''), (''3'', CHR ''x''), (''1'', CHR ''s'')]"
    by (simp_all add: valid_token_pair plain_endian_pair is_digit_def decimal_def)
  have r: "render [(''2'', CHR ''H''), (''3'', CHR ''x''), (''1'', CHR ''s'')] = ''2H3x1s''"
    "format_size [(''2'', CHR ''H''), (''3'', CHR ''x''), (''1'', CHR ''s'')] = 8"
    "format_items [(''2'', CHR ''H''), (''3'', CHR ''x''), (''1'', CHR ''s'')] = 3"
    by (simp_all add: render_def format_size_def format_items_def count_of_def decimal_def
          unit_size_def items_of_def)
  show ?thesis
    using format_sizes [OF h(1) h(1) h(2)] h r by simp
qed

text \<open>
  The claim as stated fails for an explicit count of 0: \<open>0H\<close> has the size 2 and one
  item, not the size 0 and no item.
\<close>

theorem zero_count_is_one:
  "render [(''0'', CHR ''H'')] = ''0H'' \<and>
   spec_size [(''0'', CHR ''H'')] = 0 \<and> spec_items [(''0'', CHR ''H'')] = 0 \<and>
   FormatByteSize ''0H'' = (2, 1) \<and> CalcSizeFromFormat ''0H'' = (2, 1) \<and>
   FormatByteSize (render [(''0'', CHR ''H'')])
     \<noteq> (of_nat (spec_size [(''0'', CHR ''H'')]), of_nat (spec_items [(''0'', CHR ''H'')]))"
  by (simp add: render_def spec_size_def spec_items_def spec_count_def decimal_def unit_size_def
        items_of_def FormatByteSize_def FormatByteSize_step_def CalcSizeFromFormat_def
        CalcSizeFromFormat_step_def is_digit_def digit_value_def)

section \<open>Skip\<close>








section \<open>Reference counts of file cursors\<close>

lemma store_eqI:
  "contexts a = contexts b \<Longrightarrow> counters a = counters b \<Longrightarrow> fclosed a = fclosed b \<Longrightarrow>
   (a :: FWKB_Store) = b"
  by simp

lemma branch_result:
  assumes "contexts h p = Some c" and "counters h (refCount c) = Some n"
  shows "\<exists>d. fwkb_SubWalkerSetup h p bitOffset relative anchor newPyLimit q =
           Inr (q, h\<lparr>contexts := (contexts h)(q \<mapsto> d),
                     counters := (counters h)(refCount c \<mapsto> n + 1)\<rparr>) \<and>
             refCount d = refCount c \<and> fwkb_f d = fwkb_f c"
  unfolding fwkb_SubWalkerSetup_def Let_def assms option.case
  by (intro exI conjI, rule refl) simp_all

lemma free_result:
  assumes "contexts h p = Some c" and "counters h (refCount c) = Some n"
  shows "fwkb_FreeContext h p =
           Inr (if n - 1 = 0
                then h\<lparr>contexts := (contexts h)(p := None),
                        counters := (counters h)(refCount c := None),
                        fclosed := fwkb_f c # fclosed h\<rparr>
                else h\<lparr>contexts := (contexts h)(p := None),
                        counters := (counters h)(refCount c \<mapsto> n - 1)\<rparr>)"
  using assms by (simp add: fwkb_FreeContext_def Let_def)

text \<open>
  C8.  For a live cursor at \<open>p\<close> whose file has the count \<open>n\<close>, and a new address \<open>q\<close>:
  \<open>fwkb_SubWalkerSetup\<close> adds exactly one to the shared count, leaves the parent
  context as it was and closes nothing; \<open>FreeContext\<close> of the new cursor then gives
  back the store from before the branch, so the count and the parent's position are
  unchanged.  \<open>FreeContext\<close> of the cursor itself takes exactly one from the count, and
  the file is closed (and the counter released) exactly when that leaves zero, that
  is when \<open>n = 1\<close>.
\<close>

theorem branch_and_destroy:
  fixes h :: FWKB_Store and c :: FWKB_Context and n :: ulong
  assumes parent: "contexts h p = Some c"
    and count: "counters h (refCount c) = Some n"
    and fresh: "contexts h q = None"
    and live: "n \<noteq> 0"
  shows "\<exists>h' h''.
           fwkb_SubWalkerSetup h p bitOffset relative anchor newPyLimit q = Inr (q, h') \<and>
           counters h' (refCount c) = Some (n + 1) \<and>
           contexts h' p = Some c \<and>
           fclosed h' = fclosed h \<and>
           fwkb_FreeContext h' q = Inr h \<and>
           fwkb_FreeContext h p = Inr h'' \<and>
           contexts h'' p = None \<and>
           (if n = 1 then fclosed h'' = fwkb_f c # fclosed h \<and> counters h'' (refCount c) = None
            else fclosed h'' = fclosed h \<and> counters h'' (refCount c) = Some (n - 1))"
proof -
  obtain d where d: "fwkb_SubWalkerSetup h p bitOffset relative anchor newPyLimit q =
           Inr (q, h\<lparr>contexts := (contexts h)(q \<mapsto> d),
                     counters := (counters h)(refCount c \<mapsto> n + 1)\<rparr>)"
      "refCount d = refCount c" "fwkb_f d = fwkb_f c"
    using branch_result [OF parent count] by blast
  define h' where "h' = h\<lparr>contexts := (contexts h)(q \<mapsto> d),
                     counters := (counters h)(refCount c \<mapsto> n + 1)\<rparr>"
  have qp: "q \<noteq> p" using parent fresh by auto
  have 1: "contexts h' q = Some d" "counters h' (refCount d) = Some (n + 1)"
    by (simp_all add: h'_def d(2))
  have fr: "fwkb_FreeContext h' q = Inr (h'\<lparr>contexts := (contexts h')(q := None),
                        counters := (counters h')(refCount d \<mapsto> n + 1 - 1)\<rparr>)"
    using free_result [OF 1] live by simp
  have eq: "h'\<lparr>contexts := (contexts h')(q := None),
                        counters := (counters h')(refCount d \<mapsto> n + 1 - 1)\<rparr> = h"
    using fresh count by (intro store_eqI) (auto simp add: h'_def d(2) fun_eq_iff)
  have restored: "fwkb_FreeContext h' q = Inr h" using fr by (simp only: eq)
  have n1: "n - 1 = 0 \<longleftrightarrow> n = 1" by auto
  show ?thesis
    using d(1) restored qp parent free_result [OF parent count]
    by (auto simp add: h'_def n1)
qed

theorem branch_and_destroy_witness:
  "contexts store_example 0 = Some parent_example \<and> counters store_example (refCount parent_example) = Some 1 \<and> contexts store_example 1 = None \<and>
   (\<exists>h' h''. fwkb_SubWalkerSetup store_example 0 8 True False None 1 = Inr (1, h') \<and>
           counters h' 0 = Some 2 \<and> contexts h' 0 = Some parent_example \<and> fclosed h' = [] \<and>
           fwkb_FreeContext h' 1 = Inr store_example \<and>
           fwkb_FreeContext store_example 0 = Inr h'' \<and> contexts h'' 0 = None \<and>
           fclosed h'' = [7] \<and> counters h'' 0 = None)"
proof -
  have a: "contexts store_example 0 = Some parent_example" "counters store_example (refCount parent_example) = Some 1" "contexts store_example 1 = None"
     "(1 :: ulong) \<noteq> 0"
    by (simp_all add: store_example_def parent_example_def)
  show ?thesis
    using branch_and_destroy [OF a, of 8 True False None] a
    by (simp add: parent_example_def store_example_def)
qed

section \<open>Reading the rest of the data\<close>

text \<open>
  \<open>FormatProcess\<close> uses the tuple only to store the objects it builds, one after the
  other from the start index: a call that succeeds builds a list \<open>vs\<close> of objects, and
  on every tuple with room for them it stores the same objects.
\<close>

lemma SetItem_Inr:
  "PyTuple_SetItem t i v = Inr t' \<longleftrightarrow> i < length t \<and> t' = t[i := v]"
  by (auto simp add: PyTuple_SetItem_def)

lemma take_Suc_update: "j < length u \<Longrightarrow> take (Suc j) (u[j := x]) = take j u @ [x]"
  by (simp add: take_Suc_conv_app_nth)

lemma fp_items_frame:
  assumes "fp_items n w dec t b i = Inr (t', b', i')"
  shows "\<exists>vs. length vs = n \<and> (n \<noteq> 0 \<longrightarrow> i + n \<le> length t) \<and>
           (\<forall>u j. (n \<noteq> 0 \<longrightarrow> j + n \<le> length u) \<longrightarrow>
              fp_items n w dec u b j = Inr (take j u @ vs @ drop (j + n) u, b', j + n))"
  using assms
proof (induction n arbitrary: t b i)
  case 0
  then show ?case by simp
next
  case (Suc n)
  let ?x = "dec (take w b)"
  from Suc.prems have len: "\<not> length b < w" and i: "i < length t"
    and rec: "fp_items n w dec (t[i := ?x]) (drop w b) (i + 1) = Inr (t', b', i')"
    by (auto simp add: SetItem_Inr split: if_splits sum.splits)
  from Suc.IH [OF rec] obtain vs where vs: "length vs = n" "n \<noteq> 0 \<longrightarrow> i + 1 + n \<le> length t"
    "\<And>u j. (n \<noteq> 0 \<longrightarrow> j + n \<le> length u) \<Longrightarrow>
        fp_items n w dec u (drop w b) j = Inr (take j u @ vs @ drop (j + n) u, b', j + n)"
    by auto
  have "fp_items (Suc n) w dec u b j
        = Inr (take j u @ (?x # vs) @ drop (j + Suc n) u, b', j + Suc n)"
    if le: "j + Suc n \<le> length u" for u j
  proof -
    have j: "j < length u" using le by simp
    have "fp_items (Suc n) w dec u b j = fp_items n w dec (u[j := ?x]) (drop w b) (Suc j)"
      using len j by (simp add: PyTuple_SetItem_def)
    also have "\<dots> = Inr (take (Suc j) (u[j := ?x]) @ vs @ drop (Suc j + n) (u[j := ?x]), b', Suc j + n)"
      using le by (intro vs(3)) simp
    finally show ?thesis using j by (simp add: take_Suc_update)
  qed
  then show ?case using vs(1,2) i by (intro exI [of _ "?x # vs"]) auto
qed

lemma fp_code_shape:
  "(\<exists>b' be'. \<forall>t i. fp_code robe c n t b i be = Inr (t, b', i, be')) \<or>
   (\<exists>w dec. \<forall>t i. fp_code robe c n t b i be =
        (case fp_items n w dec t b i of Inl e \<Rightarrow> Inl e
         | Inr (t', b', i') \<Rightarrow> Inr (t', b', i', be))) \<or>
   (\<exists>e. \<forall>t i. fp_code robe c n t b i be = Inl e) \<or>
   (\<exists>obj b'. \<forall>t i. fp_code robe c n t b i be =
        (case PyTuple_SetItem t i obj of Inl e \<Rightarrow> Inl e
         | Inr t' \<Rightarrow> Inr (t', b', i + 1, be)))"
proof -
  consider (endian) "c \<in> set ''<@=!>''"
    | (items) "c \<notin> set ''<@=!>''" "c \<in> set ''BbHhILfilTtdQqc''"
    | (p) "c = CHR ''p''" | (s) "c = CHR ''s''"
    | (other) "c \<notin> set ''<@=!>''" "c \<notin> set ''BbHhILfilTtdQqc''" "c \<noteq> CHR ''p''" "c \<noteq> CHR ''s''"
    by blast
  then show ?thesis
  proof cases
    case endian
    then have "\<exists>b' be'. \<forall>t i. fp_code robe c n t b i be = Inr (t, b', i, be')"
      apply simp
      apply (elim disjE)
      apply (simp_all add: fp_code_def)
      apply blast+
      done
    then show ?thesis by blast
  next
    case items
    from items(2) have "\<exists>w dec. \<forall>t i. fp_code robe c n t b i be =
        (case fp_items n w dec t b i of Inl e \<Rightarrow> Inl e
         | Inr (t', b', i') \<Rightarrow> Inr (t', b', i', be))"
      apply simp
      apply (elim disjE)
      apply (simp_all add: fp_code_def)
      apply (rule exI, rule exI, intro allI, rule refl)+
      done
    then show ?thesis by blast
  next
    case p
    show ?thesis
    proof (cases b)
      case Nil
      then have "\<exists>e. \<forall>t i. fp_code robe c n t b i be = Inl e"
        using p by (simp add: fp_code_def)
      then show ?thesis by blast
    next
      case (Cons a data)
      show ?thesis
      proof (cases "length data < unat a")
        case True
        then have "\<exists>e. \<forall>t i. fp_code robe c n t b i be = Inl e"
          using p Cons by (simp add: fp_code_def)
        then show ?thesis by blast
      next
        case False
        then have "\<exists>obj b'. \<forall>t i. fp_code robe c n t b i be =
           (case PyTuple_SetItem t i obj of Inl e \<Rightarrow> Inl e
            | Inr t' \<Rightarrow> Inr (t', b', i + 1, be))"
          using p Cons by (simp add: fp_code_def) blast
        then show ?thesis by blast
      qed
    qed
  next
    case s
    show ?thesis
    proof (cases "length b < n")
      case True
      then have "\<exists>e. \<forall>t i. fp_code robe c n t b i be = Inl e"
        using s by (simp add: fp_code_def)
      then show ?thesis by blast
    next
      case False
      then have "\<exists>obj b'. \<forall>t i. fp_code robe c n t b i be =
           (case PyTuple_SetItem t i obj of Inl e \<Rightarrow> Inl e
            | Inr t' \<Rightarrow> Inr (t', b', i + 1, be))"
        using s by (simp add: fp_code_def) blast
      then show ?thesis by blast
    qed
  next
    case other
    then have "\<exists>b' be'. \<forall>t i. fp_code robe c n t b i be = Inr (t, b', i, be')"
      by (cases "c = CHR ''x''") (simp_all add: fp_code_def)
    then show ?thesis by blast
  qed
qed


lemma fp_code_frame:
  assumes ok: "fp_code robe c n t b i be = Inr (t', b', i', be')"
  shows "\<exists>vs. (vs \<noteq> [] \<longrightarrow> i + length vs \<le> length t) \<and>
           (\<forall>u j. (vs \<noteq> [] \<longrightarrow> j + length vs \<le> length u) \<longrightarrow>
              fp_code robe c n u b j be =
                Inr (take j u @ vs @ drop (j + length vs) u, b', j + length vs, be'))"
proof -
  from fp_code_shape [of robe c n b be]
  consider
      (same) b0 be0 where "\<And>t i. fp_code robe c n t b i be = Inr (t, b0, i, be0)"
    | (items) w dec where "\<And>t i. fp_code robe c n t b i be =
        (case fp_items n w dec t b i of Inl e \<Rightarrow> Inl e
         | Inr (t', b', i') \<Rightarrow> Inr (t', b', i', be))"
    | (err) e where "\<And>t i. fp_code robe c n t b i be = Inl e"
    | (one) obj b0 where "\<And>t i. fp_code robe c n t b i be =
        (case PyTuple_SetItem t i obj of Inl e \<Rightarrow> Inl e
         | Inr t' \<Rightarrow> Inr (t', b0, i + 1, be))"
    by blast
  then show ?thesis
  proof cases
    case same
    from ok same [of t i] have "b' = b0" "be' = be0" by simp_all
    then show ?thesis using same by (intro exI [of _ "[]"]) simp
  next
    case items
    from ok items [of t i] have r: "fp_items n w dec t b i = Inr (t', b', i')" and be: "be' = be"
      by (auto split: sum.splits)
    from fp_items_frame [OF r] obtain vs where vs: "length vs = n"
      "n \<noteq> 0 \<longrightarrow> i + n \<le> length t"
      "\<And>u j. (n \<noteq> 0 \<longrightarrow> j + n \<le> length u) \<Longrightarrow>
         fp_items n w dec u b j = Inr (take j u @ vs @ drop (j + n) u, b', j + n)"
      by auto
    show ?thesis
      using vs be by (intro exI [of _ vs]) (auto simp add: items)
  next
    case err
    with ok show ?thesis by simp
  next
    case one
    from ok one [of t i] have i: "i < length t" and b: "b' = b0" and be: "be' = be"
      by (auto simp add: PyTuple_SetItem_def split: if_splits)
    have "fp_code robe c n u b j be = Inr (take j u @ [obj] @ drop (j + 1) u, b', j + 1, be')"
      if "j + 1 \<le> length u" for u j
      using that by (simp add: one PyTuple_SetItem_def b be upd_conv_take_nth_drop)
    then show ?thesis using i by (intro exI [of _ "[obj]"]) simp
  qed
qed

lemma frame_compose:
  fixes u :: "'a list"
  assumes "vs1 \<noteq> [] \<longrightarrow> j + length vs1 \<le> length u"
  shows "take (j + length vs1) (take j u @ vs1 @ drop (j + length vs1) u) @ vs2 @
           drop (j + length vs1 + length vs2) (take j u @ vs1 @ drop (j + length vs1) u)
         = take j u @ (vs1 @ vs2) @ drop (j + length (vs1 @ vs2)) u"
proof (cases "vs1 = []")
  case True
  then show ?thesis by simp
next
  case False
  with assms have "j + length vs1 \<le> length u" by simp
  then show ?thesis by (simp add: ac_simps)
qed

lemma frame_length:
  "(vs \<noteq> [] \<longrightarrow> j + length vs \<le> length u)
   \<Longrightarrow> length (take j u @ vs @ drop (j + length vs) u) = length u"
  by (cases "vs = []") auto

lemma FormatProcess_loop_frame:
  assumes "FormatProcess_loop robe format r t b i be = Inr t'"
  shows "\<exists>vs. (vs \<noteq> [] \<longrightarrow> i + length vs \<le> length t) \<and>
           (\<forall>u j. (vs \<noteq> [] \<longrightarrow> j + length vs \<le> length u) \<longrightarrow>
              FormatProcess_loop robe format r u b j be =
                Inr (take j u @ vs @ drop (j + length vs) u))"
  using assms
proof (induction format arbitrary: r t b i be)
  case Nil
  show ?case by (intro exI [of _ "[]"]) simp
next
  case (Cons c format)
  show ?case
  proof (cases "is_digit c")
    case True
    then have "FormatProcess_loop robe format (10 * r + digit_value c) t b i be = Inr t'"
      using Cons.prems by simp
    from Cons.IH [OF this] True show ?thesis by simp
  next
    case False
    let ?n = "unat (if r = 0 then 1 else r)"
    from False Cons.prems obtain t1 b1 i1 be1 where
      1: "fp_code robe c ?n t b i be = Inr (t1, b1, i1, be1)"
      and 2: "FormatProcess_loop robe format 0 t1 b1 i1 be1 = Inr t'"
      by (auto simp add: Let_def split: sum.splits)
    from fp_code_frame [OF 1] obtain vs1 where vs1:
      "vs1 \<noteq> [] \<longrightarrow> i + length vs1 \<le> length t"
      "\<And>u j. (vs1 \<noteq> [] \<longrightarrow> j + length vs1 \<le> length u) \<Longrightarrow>
         fp_code robe c ?n u b j be =
           Inr (take j u @ vs1 @ drop (j + length vs1) u, b1, j + length vs1, be1)"
      by auto
    from Cons.IH [OF 2] obtain vs2 where vs2:
      "vs2 \<noteq> [] \<longrightarrow> i1 + length vs2 \<le> length t1"
      "\<And>u j. (vs2 \<noteq> [] \<longrightarrow> j + length vs2 \<le> length u) \<Longrightarrow>
         FormatProcess_loop robe format 0 u b1 j be1 =
           Inr (take j u @ vs2 @ drop (j + length vs2) u)"
      by auto
    have "Inr (t1, b1, i1, be1) =
            (Inr (take i t @ vs1 @ drop (i + length vs1) t, b1, i + length vs1, be1)
              :: error + PyObject list \<times> byte list \<times> nat \<times> bool)"
      using 1 vs1(2) [OF vs1(1)] by (simp only:)
    then have t1: "t1 = take i t @ vs1 @ drop (i + length vs1) t"
      and i1: "i1 = i + length vs1" by simp_all
    have lt1: "length t1 = length t" unfolding t1 using vs1(1) by (rule frame_length)
    have room: "vs1 @ vs2 \<noteq> [] \<longrightarrow> i + length (vs1 @ vs2) \<le> length t"
      using vs1(1) vs2(1) by (auto simp add: i1 lt1)
    have run: "FormatProcess_loop robe (c # format) r u b j be =
                Inr (take j u @ (vs1 @ vs2) @ drop (j + length (vs1 @ vs2)) u)"
      if le: "vs1 @ vs2 \<noteq> [] \<longrightarrow> j + length (vs1 @ vs2) \<le> length u" for u j
    proof -
      let ?u1 = "take j u @ vs1 @ drop (j + length vs1) u"
      have r1: "vs1 \<noteq> [] \<longrightarrow> j + length vs1 \<le> length u" using le by auto
      have l1: "length ?u1 = length u" using r1 by (rule frame_length)
      have r2: "vs2 \<noteq> [] \<longrightarrow> (j + length vs1) + length vs2 \<le> length ?u1"
        unfolding l1 using le by auto
      have "FormatProcess_loop robe (c # format) r u b j be
            = FormatProcess_loop robe format 0 ?u1 b1 (j + length vs1) be1"
        using False by (simp add: Let_def vs1(2) [OF r1])
      also have "\<dots> = Inr (take (j + length vs1) ?u1 @ vs2 @
                              drop (j + length vs1 + length vs2) ?u1)"
        by (rule vs2(2) [OF r2])
      finally show ?thesis by (simp only: frame_compose [OF r1])
    qed
    show ?thesis using room run by (intro exI [of _ "vs1 @ vs2"]) blast
  qed
qed


lemma FormatProcess_direct:
  assumes "FormatProcess robe [PyNull] b format 0 be = Inr t0"
  shows "FormatProcess robe (pre @ PyNull # rest) b format (length pre) be
         = Inr (pre @ hd t0 # rest)"
proof -
  from assms have "FormatProcess_loop robe format 0 [PyNull] b 0 be = Inr t0"
    by (simp add: FormatProcess_def)
  from FormatProcess_loop_frame [OF this] obtain vs where
    vs: "vs \<noteq> [] \<longrightarrow> 0 + length vs \<le> length [PyNull]"
    and run: "\<And>u j. (vs \<noteq> [] \<longrightarrow> j + length vs \<le> length u) \<Longrightarrow>
         FormatProcess_loop robe format 0 u b j be =
           Inr (take j u @ vs @ drop (j + length vs) u)"
    by blast
  have t0: "t0 = take 0 [PyNull] @ vs @ drop (0 + length vs) [PyNull]"
    using assms run [OF vs] by (simp add: FormatProcess_def)
  have r: "vs \<noteq> [] \<longrightarrow> length pre + length vs \<le> length (pre @ PyNull # rest)"
    using vs by auto
  show ?thesis
  proof (cases vs)
    case Nil
    then show ?thesis using run [OF r] t0 by (simp add: FormatProcess_def)
  next
    case (Cons v ws)
    then have "ws = []" using vs by simp
    then show ?thesis using run [OF r] t0 Cons by (simp add: FormatProcess_def)
  qed
qed

text \<open>
  With \<open>strict\<close>, a format of nonzero size and a cursor inside its limit,
  \<open>wkb_UnpackRest\<close> sets its error for leftover bits and leaves the cursor as it was
  whenever the number of bits before the limit is not a multiple of the size of one
  repetition.
\<close>

lemma UnpackRest_strict:
  fixes c :: WKB_Context
  assumes "formatBitSize_of format \<noteq> 0" and "currBitOffset c \<le> bitLimit c"
    and "(unat (bitLimit c) - unat (currBitOffset c)) mod unat (formatBitSize_of format) \<noteq> 0"
  shows "wkb_UnpackRest robe c format coerce True = (Inl ValueError, c)"
proof -
  obtain fbs ic where f: "FormatByteSize format = (fbs, ic)" by (cases "FormatByteSize format")
  have fb: "push_bit 3 fbs = formatBitSize_of format" by (simp add: formatBitSize_of_def f)
  have "unat ((bitLimit c - currBitOffset c) mod formatBitSize_of format) \<noteq> 0"
    using assms(2,3) by (simp add: unat_mod_distrib unat_sub)
  then have "(bitLimit c - currBitOffset c) mod formatBitSize_of format \<noteq> 0"
    by (simp add: unat_eq_zero)
  then show ?thesis
    using assms(1) by (simp add: wkb_UnpackRest_def f fb)
qed

text \<open>
  Otherwise (without \<open>strict\<close>, or with no bits left over) it reads
  \<open>groups\<close> repetitions, the whole number of repetitions before the limit, one after
  the other from the current offset.  When \<open>FormatProcess\<close> decodes the bytes of
  repetition \<open>k\<close> to the tuple \<open>ts k\<close>, the result holds for each repetition that tuple,
  or its one item when \<open>coerce\<close> is set and the format has one item; the cursor ends
  after the last repetition, before the leftover bits.
\<close>

lemma UnpackRest_loop_values:
  fixes c :: WKB_Context and fb :: ulong
  assumes "unat (currBitOffset c) + g * unat fb \<le> unat (bitLimit c)"
    and "unat (bitLimit c) \<le> 8 * length (liveBuffer c)"
    and "\<And>k. k < g \<Longrightarrow>
           FormatProcess robe (replicate ic PyNull)
             (bit_slice (liveBuffer c) (unat (currBitOffset c) + k * unat fb) (unat fb))
             format 0 (wkb_isBigEndian c) = Inr (ts k)"
    and "direct \<longrightarrow> ic = 1"
  shows "wkb_UnpackRest_loop robe format direct ic fb g (length pre)
           (pre @ replicate g PyNull) c =
         (Inr (pre @ map (\<lambda>k. if direct then hd (ts k) else PyTuple (ts k)) [0..<g]),
          c\<lparr>currBitOffset := currBitOffset c + of_nat g * fb\<rparr>)"
  using assms
proof (induction g arbitrary: pre c ts)
  case 0
  then show ?case by simp
next
  case (Suc g)
  let ?b = "bit_slice (liveBuffer c) (unat (currBitOffset c)) (unat fb)"
  let ?c' = "c\<lparr>currBitOffset := currBitOffset c + fb\<rparr>"
  let ?x = "if direct then hd (ts 0) else PyTuple (ts 0)"
  have fits: "unat (currBitOffset c) + unat fb \<le> unat (bitLimit c)"
    using Suc.prems(1) by simp
  have read: "wkb_BytesFromBits c fb = (Inr ?b, ?c')"
    using fits Suc.prems(2) by (rule wkb_BytesFromBits_slice)
  have sum: "unat (currBitOffset c + fb) = unat (currBitOffset c) + unat fb"
    using fits by (rule unat_add_no_wrap)
  have d0: "FormatProcess robe (replicate ic PyNull) ?b format 0 (wkb_isBigEndian c) = Inr (ts 0)"
    using Suc.prems(3) [of 0] by simp
  have p1: "unat (currBitOffset ?c') + g * unat fb \<le> unat (bitLimit ?c')"
    using Suc.prems(1) by (simp add: sum)
  have p2: "unat (bitLimit ?c') \<le> 8 * length (liveBuffer ?c')"
    using Suc.prems(2) by simp
  have p3: "FormatProcess robe (replicate ic PyNull)
             (bit_slice (liveBuffer ?c') (unat (currBitOffset ?c') + k * unat fb) (unat fb))
             format 0 (wkb_isBigEndian ?c') = Inr (ts (Suc k))" if "k < g" for k
    using Suc.prems(3) [of "Suc k"] that by (simp add: sum add.assoc)
  have fin: "?c'\<lparr>currBitOffset := currBitOffset ?c' + of_nat g * fb\<rparr>
             = c\<lparr>currBitOffset := currBitOffset c + of_nat (Suc g) * fb\<rparr>"
    by (simp add: algebra_simps)
  have rest: "wkb_UnpackRest_loop robe format direct ic fb g (length (pre @ [?x]))
           ((pre @ [?x]) @ replicate g PyNull) ?c' =
         (Inr ((pre @ [?x]) @ map (\<lambda>k. if direct then hd (ts (Suc k)) else PyTuple (ts (Suc k))) [0..<g]),
          ?c'\<lparr>currBitOffset := currBitOffset ?c' + of_nat g * fb\<rparr>)"
    by (rule Suc.IH [OF p1 p2 p3 Suc.prems(4)])
  have vals: "(pre @ [?x]) @ map (\<lambda>k. if direct then hd (ts (Suc k)) else PyTuple (ts (Suc k))) [0..<g]
              = pre @ map (\<lambda>k. if direct then hd (ts k) else PyTuple (ts k)) [0..<Suc g]"
    by (simp only: map_upt_Suc) simp
  show ?case
  proof (cases direct)
    case True
    then have "ic = 1" using Suc.prems(4) by simp
    then have "FormatProcess robe [PyNull] ?b format 0 (wkb_isBigEndian c) = Inr (ts 0)"
      using d0 by simp
    from FormatProcess_direct [OF this, of pre "replicate g PyNull"]
    have "FormatProcess robe (pre @ replicate (Suc g) PyNull) ?b format (length pre) (wkb_isBigEndian c)
          = Inr ((pre @ [?x]) @ replicate g PyNull)"
      using True by simp
    then show ?thesis
      using True read rest unfolding fin vals by simp
  next
    case False
    have "PyTuple_SetItem (pre @ replicate (Suc g) PyNull) (length pre) (PyTuple (ts 0))
          = Inr ((pre @ [?x]) @ replicate g PyNull)"
      using False by (simp add: PyTuple_SetItem_def)
    then show ?thesis
      using False read d0 rest unfolding fin vals by simp
  qed
qed

lemma UnpackRest_values:
  fixes c :: WKB_Context and format :: string
  defines "fb \<equiv> formatBitSize_of format"
  defines "groups \<equiv> (unat (bitLimit c) - unat (currBitOffset c)) div unat (formatBitSize_of format)"
  assumes nz: "formatBitSize_of format \<noteq> 0" and le: "currBitOffset c \<le> bitLimit c"
    and buf: "unat (bitLimit c) \<le> 8 * length (liveBuffer c)"
    and ex: "strict \<longrightarrow> (unat (bitLimit c) - unat (currBitOffset c)) mod unat (formatBitSize_of format) = 0"
    and dec: "\<And>k. k < groups \<Longrightarrow>
           FormatProcess robe (replicate (unat (snd (FormatByteSize format))) PyNull)
             (bit_slice (liveBuffer c) (unat (currBitOffset c) + k * unat fb) (unat fb))
             format 0 (wkb_isBigEndian c) = Inr (ts k)"
  shows "wkb_UnpackRest robe c format coerce strict =
           (Inr (map (\<lambda>k. if coerce \<and> snd (FormatByteSize format) = 1 then hd (ts k)
                           else PyTuple (ts k)) [0..<groups]),
            c\<lparr>currBitOffset := currBitOffset c + of_nat groups * fb\<rparr>)"
proof -
  obtain fbs ic where f: "FormatByteSize format = (fbs, ic)" by (cases "FormatByteSize format")
  have fb: "push_bit 3 fbs = fb" by (simp add: fb_def formatBitSize_of_def f)
  have nz': "fb \<noteq> 0" using nz by (simp add: fb_def)
  have g: "unat ((bitLimit c - currBitOffset c) div fb) = groups"
    using le by (simp add: groups_def fb_def unat_div_distrib unat_sub)
  have "unat ((bitLimit c - currBitOffset c) mod fb) = 0" if strict
    using le ex that by (simp add: fb_def unat_mod_distrib unat_sub)
  then have m: "strict \<longrightarrow> (bitLimit c - currBitOffset c) mod fb = 0"
    by (simp add: unat_eq_zero)
  have unfold: "wkb_UnpackRest robe c format coerce strict =
        (if 0 < groups
         then wkb_UnpackRest_loop robe format (coerce \<and> ic = 1) (unat ic) fb groups 0
                (replicate groups PyNull) c
         else (Inr [], c))"
    using nz' m by (cases strict) (simp_all add: wkb_UnpackRest_def f fb g Let_def)
  show ?thesis
  proof (cases "0 < groups")
    case False
    then show ?thesis unfolding unfold by simp
  next
    case True
    have cl: "unat (currBitOffset c) \<le> unat (bitLimit c)" using le by (simp add: word_le_nat_alt)
    have "groups * unat fb \<le> unat (bitLimit c) - unat (currBitOffset c)"
      unfolding groups_def fb_def by simp
    then have p1: "unat (currBitOffset c) + groups * unat fb \<le> unat (bitLimit c)"
      using cl by simp
    have p3: "FormatProcess robe (replicate (unat ic) PyNull)
             (bit_slice (liveBuffer c) (unat (currBitOffset c) + k * unat fb) (unat fb))
             format 0 (wkb_isBigEndian c) = Inr (ts k)" if "k < groups" for k
      using dec [OF that] by (simp add: f)
    have p4: "(coerce \<and> ic = 1) \<longrightarrow> unat ic = 1" by simp
    from UnpackRest_loop_values [OF p1 buf p3 p4, of "[]"]
    show ?thesis unfolding unfold using True by (simp add: f)
  qed
qed


lemma unpack_rest_example:
  "wkb_UnpackRest False \<lparr>liveBuffer = [0x12, 0x34, 0x56], origBitStart = 0, currBitOffset = 4,
                          bitLimit = 24, wkb_isBigEndian = True\<rparr> ''B'' True False
     = (Inr [PyLong 0x23, PyLong 0x45],
        \<lparr>liveBuffer = [0x12, 0x34, 0x56], origBitStart = 0, currBitOffset = 20,
         bitLimit = 24, wkb_isBigEndian = True\<rparr>) \<and>
   wkb_UnpackRest False \<lparr>liveBuffer = [0x12, 0x34, 0x56], origBitStart = 0, currBitOffset = 4,
                          bitLimit = 24, wkb_isBigEndian = True\<rparr> ''B'' False False
     = (Inr [PyTuple [PyLong 0x23], PyTuple [PyLong 0x45]],
        \<lparr>liveBuffer = [0x12, 0x34, 0x56], origBitStart = 0, currBitOffset = 20,
         bitLimit = 24, wkb_isBigEndian = True\<rparr>)"
proof -
  let ?c = "\<lparr>liveBuffer = [0x12, 0x34, 0x56], origBitStart = 0, currBitOffset = 4,
             bitLimit = 24, wkb_isBigEndian = True\<rparr>"
  let ?ts = "\<lambda>k :: nat. [PyLong (if k = 0 then 0x23 else 0x45)]"
  have f: "FormatByteSize ''B'' = (1, 1)"
    by (simp add: FormatByteSize_def FormatByteSize_step_def is_digit_def)
  have fb: "formatBitSize_of ''B'' = 8" by (simp add: formatBitSize_of_def f)
  have s0: "bit_slice [0x12, 0x34, 0x56] 4 8 = [0x23]" by code_simp
  have s1: "bit_slice [0x12, 0x34, 0x56] 12 8 = [0x45]" by code_simp
  have d: "FormatProcess False [PyNull] [x] ''B'' 0 True = Inr [PyLong (uint x)]" for x
    by (simp add: FormatProcess_def is_digit_def fp_code_def PyTuple_SetItem_def decode_B_def)
  have h: "formatBitSize_of ''B'' \<noteq> 0" "currBitOffset ?c \<le> bitLimit ?c"
    "unat (bitLimit ?c) \<le> 8 * length (liveBuffer ?c)"
    "False \<longrightarrow> (unat (bitLimit ?c) - unat (currBitOffset ?c)) mod unat (formatBitSize_of ''B'') = 0"
    by (simp_all add: fb)
  have dec: "FormatProcess False (replicate (unat (snd (FormatByteSize ''B''))) PyNull)
             (bit_slice (liveBuffer ?c) (unat (currBitOffset ?c) + k * unat (formatBitSize_of ''B''))
                (unat (formatBitSize_of ''B'')))
             ''B'' 0 (wkb_isBigEndian ?c) = Inr (?ts k)"
    if "k < (unat (bitLimit ?c) - unat (currBitOffset ?c)) div unat (formatBitSize_of ''B'')" for k
  proof -
    from that have "k = 0 \<or> k = 1" by (auto simp add: fb)
    then show ?thesis by (auto simp add: f fb s0 s1 d)
  qed
  have g: "(unat (bitLimit ?c) - unat (currBitOffset ?c)) div unat (formatBitSize_of ''B'') = 2"
    by (simp add: fb)
  have u: "[0..<2] = [0, 1 :: nat]" by (simp add: upt_rec)
  from UnpackRest_values [OF h dec, of True] UnpackRest_values [OF h dec, of False]
  show ?thesis by (simp add: g f fb u)
qed

text \<open>
  C7.  For the empty format the size of one repetition is 0, and \<open>wkb_UnpackRest\<close>
  divides the number of remaining bits by it, for the remainder with \<open>strict\<close> and for
  the quotient without: this is undefined behaviour of the C code, for every cursor;
  no error for leftover bits is set and no tuple is returned.  So it is for a cursor
  with 20 bits before its limit; with a format of one byte the same cursor and
  \<open>strict\<close> give the error for leftover bits.
\<close>

theorem unpack_rest_empty_format:
  "FormatByteSize '''' = (0, 0) \<and>
   wkb_UnpackRest robe c '''' coerce strict = (Inl Fault, c) \<and>
   wkb_UnpackRest False \<lparr>liveBuffer = [0x12, 0x34, 0x56], origBitStart = 0, currBitOffset = 4,
                          bitLimit = 24, wkb_isBigEndian = True\<rparr> '''' False True
     = (Inl Fault, \<lparr>liveBuffer = [0x12, 0x34, 0x56], origBitStart = 0, currBitOffset = 4,
                     bitLimit = 24, wkb_isBigEndian = True\<rparr>) \<and>
   wkb_UnpackRest False \<lparr>liveBuffer = [0x12, 0x34, 0x56], origBitStart = 0, currBitOffset = 4,
                          bitLimit = 24, wkb_isBigEndian = True\<rparr> ''B'' False True
     = (Inl ValueError, \<lparr>liveBuffer = [0x12, 0x34, 0x56], origBitStart = 0, currBitOffset = 4,
                          bitLimit = 24, wkb_isBigEndian = True\<rparr>)"
proof -
  have e: "FormatByteSize '''' = (0, 0)" by (simp add: FormatByteSize_def)
  have f: "wkb_UnpackRest r d '''' co st = (Inl Fault, d)" for r d co st
    by (simp add: wkb_UnpackRest_def e)
  have b: "FormatByteSize ''B'' = (1, 1)"
    by (simp add: FormatByteSize_def FormatByteSize_step_def is_digit_def)
  have v: "wkb_UnpackRest False \<lparr>liveBuffer = [0x12, 0x34, 0x56], origBitStart = 0, currBitOffset = 4,
                          bitLimit = 24, wkb_isBigEndian = True\<rparr> ''B'' False True
     = (Inl ValueError, \<lparr>liveBuffer = [0x12, 0x34, 0x56], origBitStart = 0, currBitOffset = 4,
                          bitLimit = 24, wkb_isBigEndian = True\<rparr>)"
    by (simp add: wkb_UnpackRest_def b)
  show ?thesis using e f v by simp
qed

section \<open>Pascal strings\<close>

lemma strlen_no_zero: "0 \<notin> set s \<Longrightarrow> strlen s = length s"
  by (induction s) (simp_all add: strlen_def)

lemma replicate_2: "replicate 2 x = [x, x]"
  by (simp add: numeral_2_eq_2)

lemma strlen_le: "strlen s \<le> length s"
  by (simp add: strlen_def length_takeWhile_le)

lemma ut_Pack_p_fits:
  assumes "0 \<notin> set s" and "length s < unat repeat"
  shows "ut_Pack_p repeat s
         = of_nat (if 255 < length s then 255 else length s) # s @ replicate (unat repeat - 1 - length s) 0"
  using assms by (simp add: ut_Pack_p_def Let_def strlen_no_zero)

lemma ut_Pack_p_length: "repeat \<noteq> 0 \<Longrightarrow> length (ut_Pack_p repeat s) = unat repeat"
  using strlen_le [of s] unat_eq_zero [of repeat]
  by (cases "unat repeat") (auto simp add: ut_Pack_p_def Let_def)

lemma fp_code_p:
  "fp_code robe CHR ''p'' repeat t (a # data) index be =
    (if length data < unat a then Inl Fault
     else case PyTuple_SetItem t index (PyBytes (take (unat a) data)) of
            Inl e \<Rightarrow> Inl e
          | Inr t' \<Rightarrow> Inr (t', drop repeat (a # data), index + 1, be))"
  by (simp add: fp_code_def)

text \<open>
  C9 (as amended).  Case \<open>'p'\<close> of \<open>ut_Pack\<close> with the count \<open>r\<close> writes \<open>r\<close> bytes: a
  length byte, then the first \<open>min (strlen u) (r - 1)\<close> bytes of the argument, then
  zero bytes; the length byte is that number of data bytes, or 255 when it is larger.
  For a string \<open>s\<close> that holds no zero byte, has at most 255 bytes and fits the field
  (\<open>length s < repeat\<close>), case \<open>'p'\<close> of \<open>FormatProcess\<close> on the packed field stores \<open>s\<close>
  itself in the tuple and consumes the whole field.
\<close>

theorem pascal_string_round_trip:
  fixes s u :: "byte list" and repeat r :: ulong
  assumes "0 \<notin> set s" and "length s < unat repeat" and "length s \<le> 255"
    and "index < length t" and "r \<noteq> 0"
  shows "fp_code robe CHR ''p'' (unat repeat) t (ut_Pack_p repeat s) index be
           = Inr (t[index := PyBytes s], [], index + 1, be) \<and>
         length (ut_Pack_p r u) = unat r \<and>
         hd (ut_Pack_p r u) = of_nat (min 255 (min (strlen u) (unat r - 1))) \<and>
         tl (ut_Pack_p r u) = take (min (strlen u) (unat r - 1)) u
                               @ replicate (unat r - 1 - min (strlen u) (unat r - 1)) 0"
proof -
  have a: "unat (of_nat (length s) :: byte) = length s"
    using assms(3) by (simp add: unat_of_nat)
  have 1: "fp_code robe CHR ''p'' (unat repeat) t (ut_Pack_p repeat s) index be
           = Inr (t[index := PyBytes s], [], index + 1, be)"
    using assms(1-4)
    by (simp add: ut_Pack_p_fits fp_code_p a PyTuple_SetItem_def)
  have 2: "length (ut_Pack_p r u) = unat r" using assms(5) by (rule ut_Pack_p_length)
  have 3: "hd (ut_Pack_p r u) = of_nat (min 255 (min (strlen u) (unat r - 1)))"
    using unat_eq_zero [of r] assms(5)
    by (cases "unat r") (auto simp add: ut_Pack_p_def Let_def min_def)
  have 4: "tl (ut_Pack_p r u) = take (min (strlen u) (unat r - 1)) u
                               @ replicate (unat r - 1 - min (strlen u) (unat r - 1)) 0"
    using unat_eq_zero [of r] assms(5)
    by (cases "unat r") (auto simp add: ut_Pack_p_def Let_def min_def)
  show ?thesis using 1 2 3 4 by simp
qed

theorem pascal_string_round_trip_witness:
  "fp_code False CHR ''p'' 4 [PyNull] (ut_Pack_p 4 [0x61, 0x62]) 0 True
           = Inr ([PyBytes [0x61, 0x62]], [], 1, True) \<and>
   ut_Pack_p 4 [0x61, 0x62] = [2, 0x61, 0x62, 0] \<and>
   ut_Pack_p 3 [0x61, 0x62, 0x63, 0x64] = [2, 0x61, 0x62] \<and>
   FormatProcess False [PyNull] (ut_Pack_p 4 [0x61, 0x62]) ''4p'' 0 True = Inr [PyBytes [0x61, 0x62]]"
proof -
  have h: "0 \<notin> set [0x61, 0x62 :: byte]" "length [0x61, 0x62 :: byte] < unat (4 :: ulong)"
    "length [0x61, 0x62 :: byte] \<le> 255" "0 < length [PyNull]" "(3 :: ulong) \<noteq> 0"
    by simp_all
  have e: "ut_Pack_p 4 [0x61, 0x62] = [2, 0x61, 0x62, 0]"
     "ut_Pack_p 3 [0x61, 0x62, 0x63, 0x64] = [2, 0x61, 0x62]"
    by (simp_all add: ut_Pack_p_def strlen_def)
  have f: "FormatProcess False [PyNull] [2, 0x61, 0x62, 0] ''4p'' 0 True = Inr [PyBytes [0x61, 0x62]]"
    by (simp add: FormatProcess_def is_digit_def digit_value_def fp_code_p PyTuple_SetItem_def)
  show ?thesis
    using pascal_string_round_trip [OF h, of False True "[0x61, 0x62, 0x63, 0x64]"] e f
    by simp
qed

text \<open>
  The claim as stated fails for a string with a zero byte in it: \<open>ut_Pack\<close> takes the
  length with \<open>strlen\<close>, so the three bytes \<open>61 00 62\<close> in a field of four are packed as
  \<open>01 61 00 00\<close> and read back as the single byte \<open>61\<close>.
\<close>

theorem pascal_string_zero_byte:
  "FormatProcess False [PyNull] (ut_Pack_p 4 [0x61, 0, 0x62]) ''4p'' 0 True = Inr [PyBytes [0x61]] \<and>
   FormatProcess False [PyNull] (ut_Pack_p 4 [0x61, 0, 0x62]) ''4p'' 0 True
     \<noteq> Inr [PyBytes [0x61, 0, 0x62]] \<and>
   ut_Pack_p 4 [0x61, 0, 0x62] = [1, 0x61, 0, 0] \<and>
   length [0x61, 0, 0x62 :: byte] \<le> 4 - 1 \<and> length [0x61, 0, 0x62 :: byte] \<le> 255"
  by (simp add: ut_Pack_p_def strlen_def FormatProcess_def is_digit_def digit_value_def fp_code_p
        PyTuple_SetItem_def replicate_2)

section \<open>Zero-bit requests\<close>

text \<open>
  C10.  Asking \<open>wkb_UnpackBits\<close> or \<open>wk_UnpackBits\<close> for zero bits returns the empty
  byte string and the context as it was, whatever the context is: \<open>BytesFromBits\<close>
  and its range check are not reached, also for a cursor at or past its limit.
\<close>

theorem unpack_zero_bits:
  "wkb_UnpackBits c 0 = (Inr [], c) \<and> wk_UnpackBits k 0 = (Inr [], k)"
  by (simp add: wkb_UnpackBits_def wk_UnpackBits_def)

end
